theory Spec2Isabelle
  imports Main
begin

section \<open>Data model of the locate-data-objects command\<close>

text \<open>
  The command reads rows from the ML warehouse and asks the iRODS store, through the
  partisan library, which data objects and collections carry the matching metadata.
  The store is outside the program: it is a parameter of every workflow below, and it
  answers each call either with a list of items or by raising.
\<close>

type_synonym path = string

text \<open>What partisan returns: a \<open>DataObject\<close> or a \<open>Collection\<close>, each printed as its path.\<close>

datatype rods_item = DataObject path | Collection path

fun is_data_object :: "rods_item \<Rightarrow> bool" where
  "is_data_object (DataObject p) = True"
| "is_data_object (Collection p) = False"

text \<open>
  The attribute names are members of enums of the package (\<open>Instrument.RUN\<close>,
  \<open>SeqConcept.TAG_INDEX\<close>, \<open>TrackedSample.ID\<close>, ...); only their identity matters here.
\<close>

datatype attribute =
    Instrument_RUN
  | Instrument_LANE
  | SeqConcept_TAG_INDEX
  | TrackedSample_ID
  | ONT_EXPERIMENT_NAME
  | ONT_INSTRUMENT_SLOT

datatype avu_value = IntValue int | StrValue string | NoneValue

datatype avu = AVU attribute avu_value

text \<open>An exception caught by \<open>except Exception\<close>.\<close>

datatype error = RodsError string | AttributeError | ValueError

text \<open>
  The constructor \<open>AVU(attribute, value)\<close> of partisan raises \<open>ValueError\<close> when the value
  is \<open>None\<close>.
\<close>

fun make_avu :: "attribute \<Rightarrow> avu_value \<Rightarrow> error + avu" where
  "make_avu a NoneValue = Inl ValueError"
| "make_avu a v = Inr (AVU a v)"

text \<open>
  \<open>query_metadata(*avus, data_object=..., collection=..., zone=...)\<close>. The first argument
  is the index of the item being processed: the store may answer differently as the scan
  goes on.
\<close>

type_synonym store =
  "nat \<Rightarrow> avu list \<Rightarrow> bool \<Rightarrow> bool \<Rightarrow> string option \<Rightarrow> error + rods_item list"

text \<open>
  \<open>coll.iter_contents(recurse=True)\<close> is a generator: it yields items and may raise after
  some of them.
\<close>

type_synonym contents = "nat \<Rightarrow> path \<Rightarrow> rods_item list \<times> error option"

text \<open>\<open>barcode_collections(coll, tag_identifier)\<close> of \<open>npg_irods.ont\<close>.\<close>

type_synonym barcodes =
  "nat \<Rightarrow> rods_item \<Rightarrow> string option \<Rightarrow> error + rods_item list"

text \<open>The calls made to the store, in order: the trace the claims about queries speak of.\<close>

datatype store_call =
    QueryMetadata nat "avu list" bool bool "string option"
  | IterContents nat path
  | BarcodeCollections nat rods_item "string option"

datatype log_event =
    LogInfo string nat
  | LogError string nat
  | LogException error nat
  | LogSummary int int

text \<open>
  What every workflow keeps while it runs: the two counters, what it printed to STDOUT,
  what it logged, and the calls it made to the store.
\<close>

record run_state =
  num_processed :: int
  num_errors :: int
  printed :: "rods_item list"
  logged :: "log_event list"
  calls :: "store_call list"

text \<open>\<open>if num_errors: exit(1)\<close>; a function that returns ends the process with status 0.\<close>

definition exit_status :: "int \<Rightarrow> int" where
  "exit_status n = (if n \<noteq> 0 then 1 else 0)"

text \<open>
  The handler shared by the three loops:
  \<open>except Exception as e: num_errors += 1; log.exception(e, item=i, ...)\<close>.
\<close>

definition caught :: "nat \<Rightarrow> error \<Rightarrow> 'a run_state_scheme \<Rightarrow> 'a run_state_scheme" where
  "caught i e s = s\<lparr>num_errors := num_errors s + 1, logged := logged s @ [LogException e i]\<rparr>"

section \<open>illumina-updates\<close>

record illumina_component =
  id_run :: int
  position :: int
  tag_index :: "int option"

text \<open>The two \<open>defaultdict(int)\<close>: a missing key reads as 0.\<close>

record illumina_state = run_state +
  attempts_per_run :: "int \<Rightarrow> int"
  success_per_run :: "int \<Rightarrow> int"

definition illumina_init :: illumina_state where
  "illumina_init =
     \<lparr>num_processed = 0, num_errors = 0, printed = [], logged = [], calls = [],
      attempts_per_run = (\<lambda>r. 0), success_per_run = (\<lambda>r. 0)\<rparr>"

fun avu_of_int_option :: "int option \<Rightarrow> avu_value" where
  "avu_of_int_option None = NoneValue"
| "avu_of_int_option (Some n) = IntValue n"

text \<open>
  Lines 224-228: the three AVUs are built in order, inside the \<open>try\<close>; the first
  constructor that raises ends the item. A component without a tag index has
  \<open>tag_index = None\<close>.
\<close>

definition illumina_avus :: "illumina_component \<Rightarrow> error + avu list" where
  "illumina_avus c =
     (case make_avu Instrument_RUN (IntValue (id_run c)) of
        Inl e \<Rightarrow> Inl e
      | Inr a_run \<Rightarrow>
          (case make_avu Instrument_LANE (IntValue (position c)) of
             Inl e \<Rightarrow> Inl e
           | Inr a_lane \<Rightarrow>
               (case make_avu SeqConcept_TAG_INDEX (avu_of_int_option (tag_index c)) of
                  Inl e \<Rightarrow> Inl e
                | Inr a_tag \<Rightarrow> Inr [a_run, a_lane, a_tag])))"

text \<open>
  \<open>skip_absent_runs\<close> is an integer from 1 to 100, or \<open>None\<close> when the option is given
  without a value; \<open>None\<close> and 0 are false in a condition.
\<close>

fun truthy :: "int option \<Rightarrow> bool" where
  "truthy None = False"
| "truthy (Some n) = (n \<noteq> 0)"

text \<open>The condition of the \<open>if\<close> at lines 230-234.\<close>

definition skip_run :: "int option \<Rightarrow> illumina_state \<Rightarrow> int \<Rightarrow> bool" where
  "skip_run skip_absent_runs s r =
     (truthy skip_absent_runs \<and> success_per_run s r = 0
      \<and> Some (attempts_per_run s r) = skip_absent_runs)"

text \<open>The body of the \<open>for\<close> loop of \<open>illumina_updates\<close>, lines 218-257.\<close>

definition illumina_item ::
  "store \<Rightarrow> string option \<Rightarrow> int option \<Rightarrow> nat \<Rightarrow> illumina_component
   \<Rightarrow> illumina_state \<Rightarrow> illumina_state" where
  "illumina_item query_metadata zone skip_absent_runs i c s0 =
     (let s = s0\<lparr>num_processed := num_processed s0 + 1,
                 logged := logged s0 @ [LogInfo ''Finding data objects'' i]\<rparr>;
          r = id_run c
      in case illumina_avus c of
           Inl e \<Rightarrow> caught i e s
         | Inr avus \<Rightarrow>
             if skip_run skip_absent_runs s r
             then s\<lparr>logged := logged s @
                      [LogInfo ''Skipping run after unsuccessful attempts to find it'' i]\<rparr>
             else
               (let s1 = s\<lparr>calls := calls s @ [QueryMetadata i avus True False zone]\<rparr>
                in case query_metadata i avus True False zone of
                     Inl e \<Rightarrow> caught i e s1
                   | Inr result \<Rightarrow>
                       if result = []
                       then s1\<lparr>attempts_per_run :=
                                 (attempts_per_run s1)(r := attempts_per_run s1 r + 1)\<rparr>
                       else s1\<lparr>success_per_run :=
                                 (success_per_run s1)(r := success_per_run s1 r + 1),
                               printed := printed s1 @ result\<rparr>))"

text \<open>\<open>for i, c in enumerate(find_updated_components(...))\<close>, from item index \<open>i\<close> on.\<close>

fun illumina_loop ::
  "store \<Rightarrow> string option \<Rightarrow> int option \<Rightarrow> nat \<Rightarrow> illumina_component list
   \<Rightarrow> illumina_state \<Rightarrow> illumina_state" where
  "illumina_loop q zone n i [] s = s"
| "illumina_loop q zone n i (c # cs) s =
     illumina_loop q zone n (Suc i) cs (illumina_item q zone n i c s)"

text \<open>
  The whole of \<open>illumina_updates\<close>: the components the warehouse scan yields are its
  input; the result is the final state and the exit status of the process.
\<close>

definition illumina_updates ::
  "store \<Rightarrow> string option \<Rightarrow> int option \<Rightarrow> illumina_component list
   \<Rightarrow> illumina_state \<times> int" where
  "illumina_updates q zone n comps =
     (let s = illumina_loop q zone n 0 comps illumina_init;
          s' = s\<lparr>logged := logged s @ [LogSummary (num_processed s) (num_errors s)]\<rparr>
      in (s', exit_status (num_errors s')))"

text \<open>The run a store call asks about: the value of its \<open>Instrument.RUN\<close> AVU.\<close>

fun run_of_call :: "store_call \<Rightarrow> int option" where
  "run_of_call (QueryMetadata i (AVU Instrument_RUN (IntValue r) # avus) d c z) = Some r"
| "run_of_call q = None"

definition queries_for :: "int \<Rightarrow> store_call list \<Rightarrow> store_call list" where
  "queries_for r cs = filter (\<lambda>q. run_of_call q = Some r) cs"

text \<open>The answer the store gave to a recorded call.\<close>

fun answer :: "store \<Rightarrow> store_call \<Rightarrow> error + rods_item list" where
  "answer q (QueryMetadata i avus d c z) = q i avus d c z"
| "answer q other = Inr []"

section \<open>consent-withdrawn\<close>

text \<open>A row of \<open>find_consent_withdrawn_samples\<close>; the loop reads one field of it.\<close>

record sample =
  id_sample_lims :: "string option"

definition run_init :: run_state where
  "run_init = \<lparr>num_processed = 0, num_errors = 0, printed = [], logged = [], calls = []\<rparr>"

text \<open>
  Lines 142-147, inside the \<open>try\<close>: the contents of every matched collection are walked and
  the data objects among them printed. What was printed before an exception stays
  printed; the exception is handed to the caller. A matched item that is not a
  collection has no \<open>iter_contents\<close>.
\<close>

fun consent_colls ::
  "contents \<Rightarrow> nat \<Rightarrow> rods_item list \<Rightarrow> run_state \<Rightarrow> run_state \<times> error option" where
  "consent_colls iter_contents i [] st = (st, None)"
| "consent_colls iter_contents i (coll # colls) st =
     (case coll of
        DataObject p \<Rightarrow> (st, Some AttributeError)
      | Collection p \<Rightarrow>
          (let st1 = st\<lparr>calls := calls st @ [IterContents i p]\<rparr>;
               (items, err) = iter_contents i p;
               st2 = st1\<lparr>printed := printed st1 @ filter is_data_object items\<rparr>
           in case err of
                Some e \<Rightarrow> (st2, Some e)
              | None \<Rightarrow> consent_colls iter_contents i colls st2))"

text \<open>The body of the \<open>for\<close> loop of \<open>consent_withdrawn\<close>, lines 126-150.\<close>

definition consent_item ::
  "store \<Rightarrow> contents \<Rightarrow> string option \<Rightarrow> nat \<Rightarrow> sample \<Rightarrow> run_state \<Rightarrow> run_state" where
  "consent_item query_metadata iter_contents zone i s st0 =
     (let st = st0\<lparr>num_processed := num_processed st0 + 1,
                   logged := logged st0 @ [LogInfo ''Finding data objects'' i]\<rparr>
      in case id_sample_lims s of
           None \<Rightarrow>
             st\<lparr>num_errors := num_errors st + 1,
                logged := logged st @ [LogError ''Missing id_sample_lims'' i]\<rparr>
         | Some v \<Rightarrow>
             (let query = AVU TrackedSample_ID (StrValue v);
                  st1 = st\<lparr>calls := calls st @ [QueryMetadata i [query] True False zone]\<rparr>
              in case query_metadata i [query] True False zone of
                   Inl e \<Rightarrow> caught i e st1
                 | Inr objs \<Rightarrow>
                     (let st2 = st1\<lparr>printed := printed st1 @ objs\<rparr>;
                          st3 = st2\<lparr>calls := calls st2 @
                                  [QueryMetadata i [query] False True zone]\<rparr>
                      in case query_metadata i [query] False True zone of
                           Inl e \<Rightarrow> caught i e st3
                         | Inr colls \<Rightarrow>
                             (case consent_colls iter_contents i colls st3 of
                                (st4, None) \<Rightarrow> st4
                              | (st4, Some e) \<Rightarrow> caught i e st4))))"

fun consent_loop ::
  "store \<Rightarrow> contents \<Rightarrow> string option \<Rightarrow> nat \<Rightarrow> sample list \<Rightarrow> run_state \<Rightarrow> run_state" where
  "consent_loop q ic zone i [] st = st"
| "consent_loop q ic zone i (s # ss) st =
     consent_loop q ic zone (Suc i) ss (consent_item q ic zone i s st)"

definition consent_withdrawn ::
  "store \<Rightarrow> contents \<Rightarrow> string option \<Rightarrow> sample list \<Rightarrow> run_state \<times> int" where
  "consent_withdrawn q ic zone samples =
     (let st = consent_loop q ic zone 0 samples run_init;
          st' = st\<lparr>logged := logged st @ [LogSummary (num_processed st) (num_errors st)]\<rparr>
      in (st', exit_status (num_errors st')))"

text \<open>The item index a store call was made for.\<close>

fun call_item :: "store_call \<Rightarrow> nat" where
  "call_item (QueryMetadata i avus d c z) = i"
| "call_item (IterContents i p) = i"
| "call_item (BarcodeCollections i coll t) = i"

section \<open>ont-updates\<close>

record ont_component =
  experiment_name :: string
  instrument_slot :: int
  tag_identifier :: "string option"

definition ont_avus :: "ont_component \<Rightarrow> avu list" where
  "ont_avus c =
     [AVU ONT_EXPERIMENT_NAME (StrValue (experiment_name c)),
      AVU ONT_INSTRUMENT_SLOT (IntValue (instrument_slot c))]"

text \<open>
  Lines 325-334, inside the \<open>try\<close>: what is printed for each matched collection. An
  exception of \<open>barcode_collections\<close> ends the loop and is handed to the caller.
\<close>

fun ont_colls ::
  "barcodes \<Rightarrow> bool \<Rightarrow> nat \<Rightarrow> ont_component \<Rightarrow> rods_item list \<Rightarrow> run_state
   \<Rightarrow> run_state \<times> error option" where
  "ont_colls barcode_collections report_tags i c [] st = (st, None)"
| "ont_colls barcode_collections report_tags i c (coll # colls) st =
     (if report_tags \<and> tag_identifier c \<noteq> None
      then
        (let st1 = st\<lparr>calls := calls st @ [BarcodeCollections i coll (tag_identifier c)]\<rparr>
         in case barcode_collections i coll (tag_identifier c) of
              Inl e \<Rightarrow> (st1, Some e)
            | Inr bcolls \<Rightarrow>
                ont_colls barcode_collections report_tags i c colls
                  (st1\<lparr>printed := printed st1 @ bcolls\<rparr>))
      else ont_colls barcode_collections report_tags i c colls
             (st\<lparr>printed := printed st @ [coll]\<rparr>))"

text \<open>The body of the \<open>for\<close> loop of \<open>ont_updates\<close>, lines 315-338.\<close>

definition ont_item ::
  "store \<Rightarrow> barcodes \<Rightarrow> string option \<Rightarrow> bool \<Rightarrow> nat \<Rightarrow> ont_component
   \<Rightarrow> run_state \<Rightarrow> run_state" where
  "ont_item query_metadata barcode_collections zone report_tags i c st0 =
     (let st = st0\<lparr>num_processed := num_processed st0 + 1,
                   logged := logged st0 @ [LogInfo ''Finding collections'' i]\<rparr>;
          avus = ont_avus c;
          st1 = st\<lparr>calls := calls st @ [QueryMetadata i avus False True zone]\<rparr>
      in case query_metadata i avus False True zone of
           Inl e \<Rightarrow> caught i e st1
         | Inr colls \<Rightarrow>
             (case ont_colls barcode_collections report_tags i c colls st1 of
                (st2, None) \<Rightarrow> st2
              | (st2, Some e) \<Rightarrow> caught i e st2))"

fun ont_loop ::
  "store \<Rightarrow> barcodes \<Rightarrow> string option \<Rightarrow> bool \<Rightarrow> nat \<Rightarrow> ont_component list
   \<Rightarrow> run_state \<Rightarrow> run_state" where
  "ont_loop q bc zone report_tags i [] st = st"
| "ont_loop q bc zone report_tags i (c # cs) st =
     ont_loop q bc zone report_tags (Suc i) cs (ont_item q bc zone report_tags i c st)"

definition ont_updates ::
  "store \<Rightarrow> barcodes \<Rightarrow> string option \<Rightarrow> bool \<Rightarrow> ont_component list \<Rightarrow> run_state \<times> int" where
  "ont_updates q bc zone report_tags comps =
     (let st = ont_loop q bc zone report_tags 0 comps run_init;
          st' = st\<lparr>logged := logged st @ [LogSummary (num_processed st) (num_errors st)]\<rparr>
      in (st', exit_status (num_errors st')))"

fun is_barcode_call :: "store_call \<Rightarrow> bool" where
  "is_barcode_call (BarcodeCollections i coll t) = True"
| "is_barcode_call other = False"

text \<open>
  The collections the store matches for the component at index \<open>i\<close>; none when the query
  raises.
\<close>

definition ont_matches :: "store \<Rightarrow> string option \<Rightarrow> nat \<Rightarrow> ont_component \<Rightarrow> rods_item list" where
  "ont_matches q zone i c =
     (case q i (ont_avus c) False True zone of Inl e \<Rightarrow> [] | Inr colls \<Rightarrow> colls)"

section \<open>The two update commands\<close>

text \<open>
  \<open>main\<close> of \<open>update_secondary_metadata.py\<close> and of \<open>apply_ont_metadata.py\<close>: after the
  \<open>--version\<close> check, the update function of the package returns
  \<open>(num_processed, num_updated, num_errors)\<close> and \<open>main\<close> turns the last into the exit
  status. The update functions themselves are not part of these files: their result is
  the second argument.
\<close>

definition update_secondary_metadata_main :: "bool \<Rightarrow> int \<times> int \<times> int \<Rightarrow> int" where
  "update_secondary_metadata_main version result =
     (if version then 0
      else case result of (n_processed, n_updated, n_errors) \<Rightarrow>
             if n_errors \<noteq> 0 then 1 else 0)"

definition apply_ont_metadata_main :: "bool \<Rightarrow> int \<times> int \<times> int \<Rightarrow> int" where
  "apply_ont_metadata_main version result =
     (if version then 0
      else case result of (n_processed, n_updated, n_errors) \<Rightarrow>
             if n_errors \<noteq> 0 then 1 else 0)"

section \<open>Finding recent ONT experiments\<close>

text \<open>
  Modelled from the spec: \<open>find_recent_expt\<close> of \<open>npg_irods.ont\<close> and the
  \<open>ont_synthetic_mlwh\<close> fixture of the test suite are missing from the sources; only the
  test that calls them is there. The fixture follows the spec's scenario A and the
  comment of the test: simple experiments 1-5 and multiplexed experiments 1-3, each on
  instrument positions 1-5, the multiplexed ones with tags 1-12; even-numbered
  experiments were done \<open>EARLY\<close>; odd-numbered multiplexed ones \<open>LATE\<close> on an even position
  and \<open>LATEST\<close> on an odd one; odd-numbered simple ones \<open>LATE\<close> on every position, since
  \<open>test_find_updated_components\<close> finds no simple experiment in the last day before
  \<open>LATEST\<close>. The query follows the spec's window rule with \<open>since\<close>
  inclusive, and yields each experiment name once, in the order of the rows. Timestamps
  are seconds; the three constants of the fixture are parameters.
\<close>

record flowcell =
  fc_experiment_name :: string
  fc_instrument_slot :: nat
  fc_tag_identifier :: "string option"
  last_updated :: int

definition one_day :: int where
  "one_day = 86400"

definition digit :: "nat \<Rightarrow> char" where
  "digit n = ''0123456789'' ! (n mod 10)"

definition simple_name :: "nat \<Rightarrow> string" where
  "simple_name n =
     ''simple_experiment_'' @ [digit (n div 100), digit (n div 10), digit n]"

definition multiplexed_name :: "nat \<Rightarrow> string" where
  "multiplexed_name n =
     ''multiplexed_experiment_'' @ [digit (n div 100), digit (n div 10), digit n]"

definition ont_tag_identifier :: "nat \<Rightarrow> string" where
  "ont_tag_identifier n = ''NB'' @ [digit (n div 10), digit n]"

definition simple_when_done :: "int \<Rightarrow> int \<Rightarrow> nat \<Rightarrow> int" where
  "simple_when_done EARLY LATE expt = (if even expt then EARLY else LATE)"

definition when_done :: "int \<Rightarrow> int \<Rightarrow> int \<Rightarrow> nat \<Rightarrow> nat \<Rightarrow> int" where
  "when_done EARLY LATE LATEST expt slot =
     (if even expt then EARLY else if even slot then LATE else LATEST)"

text \<open>
  Modelled from the spec: the rows of the \<open>ont_synthetic_mlwh\<close> fixture, which is missing
  from the sources. One simple experiment has a row for each of its five positions, one
  multiplexed experiment a row for each position and each of its twelve tags.
\<close>

definition simple_rows :: "int \<Rightarrow> int \<Rightarrow> int \<Rightarrow> nat \<Rightarrow> flowcell list" where
  "simple_rows EARLY LATE LATEST expt =
     map (\<lambda>slot.
         \<lparr>fc_experiment_name = simple_name expt, fc_instrument_slot = slot,
          fc_tag_identifier = None,
          last_updated = simple_when_done EARLY LATE expt\<rparr>)
       [1, 2, 3, 4, 5]"

definition multiplexed_rows :: "int \<Rightarrow> int \<Rightarrow> int \<Rightarrow> nat \<Rightarrow> flowcell list" where
  "multiplexed_rows EARLY LATE LATEST expt =
     concat (map (\<lambda>slot. map (\<lambda>tag.
         \<lparr>fc_experiment_name = multiplexed_name expt, fc_instrument_slot = slot,
          fc_tag_identifier = Some (ont_tag_identifier tag),
          last_updated = when_done EARLY LATE LATEST expt slot\<rparr>)
       [1, 2, 3, 4, 5, 6, 7, 8, 9, 10, 11, 12]) [1, 2, 3, 4, 5])"

text \<open>
  Modelled from the spec: the \<open>ont_synthetic_mlwh\<close> fixture, missing from the sources; the
  simple experiments come first, as in the lists the test expects.
\<close>

definition ont_synthetic_mlwh :: "int \<Rightarrow> int \<Rightarrow> int \<Rightarrow> flowcell list" where
  "ont_synthetic_mlwh EARLY LATE LATEST =
     concat (map (simple_rows EARLY LATE LATEST) [1, 2, 3, 4, 5])
     @ concat (map (multiplexed_rows EARLY LATE LATEST) [1, 2, 3])"

text \<open>Each value once, where it first occurs: the \<open>DISTINCT\<close> of the query.\<close>

fun distinct_first :: "'a list \<Rightarrow> 'a list" where
  "distinct_first [] = []"
| "distinct_first (x # xs) = x # distinct_first (removeAll x xs)"

text \<open>
  Modelled from the spec: \<open>find_recent_expt\<close> of \<open>npg_irods.ont\<close>, missing from the sources:
  the names of the experiments with a row updated at or after \<open>since\<close>.
\<close>

definition find_recent_expt :: "flowcell list \<Rightarrow> int \<Rightarrow> string list" where
  "find_recent_expt rows since =
     distinct_first (map fc_experiment_name
       (filter (\<lambda>row. since \<le> last_updated row) rows))"

section \<open>Reading the trace of a run\<close>

text \<open>How the store answered a recorded call: by raising, with nothing, with something.\<close>

definition raised :: "store \<Rightarrow> store_call \<Rightarrow> bool" where
  "raised q call = (case answer q call of Inl e \<Rightarrow> True | Inr xs \<Rightarrow> False)"

definition found_none :: "store \<Rightarrow> store_call \<Rightarrow> bool" where
  "found_none q call = (case answer q call of Inl e \<Rightarrow> False | Inr xs \<Rightarrow> xs = [])"

definition found_some :: "store \<Rightarrow> store_call \<Rightarrow> bool" where
  "found_some q call = (case answer q call of Inl e \<Rightarrow> False | Inr xs \<Rightarrow> xs \<noteq> [])"

text \<open>
  The per-run counters agree with the trace: every attempt of a run is a call about it
  that found nothing, every success a call about it that found something.
\<close>

definition counted :: "store \<Rightarrow> illumina_state \<Rightarrow> bool" where
  "counted q s =
     (\<forall>r. attempts_per_run s r =
            int (length (filter (found_none q) (queries_for r (calls s)))) \<and>
          success_per_run s r =
            int (length (filter (found_some q) (queries_for r (calls s)))))"

text \<open>A component whose AVUs cannot be built: it has no tag index.\<close>

definition tagless :: "illumina_component \<Rightarrow> bool" where
  "tagless c = (tag_index c = None)"


section \<open>Example inputs\<close>

text \<open>
  A lane of an Illumina run without a tag index and a plex of a lane with one, a data
  object, and stores that find nothing, find something for the first or the second item
  only, or are down for the first item.
\<close>

definition lane :: "int \<Rightarrow> int \<Rightarrow> illumina_component" where
  "lane r p = \<lparr>id_run = r, position = p, tag_index = None\<rparr>"

definition plex :: "int \<Rightarrow> int \<Rightarrow> int \<Rightarrow> illumina_component" where
  "plex r p t = \<lparr>id_run = r, position = p, tag_index = Some t\<rparr>"

definition cram :: rods_item where
  "cram = DataObject ''/seq/illumina/runs/7/7_1.cram''"

definition store_empty :: store where
  "store_empty i avus d c z = Inr []"

definition store_found_first :: store where
  "store_found_first i avus d c z = (if i = 0 then Inr [cram] else Inr [])"

definition store_found_second :: store where
  "store_found_second i avus d c z = (if i = 1 then Inr [cram] else Inr [])"

text \<open>
  A store for consent-withdrawn and ont-updates: a query for data objects finds one, a
  query for collections finds the run folder, whose contents are a data object, a
  sub-collection and the data object inside it.
\<close>

definition run_folder :: rods_item where
  "run_folder = Collection ''/seq/ont/expt1/run1''"

definition store_sample :: store where
  "store_sample i avus d c z = (if d then Inr [cram] else Inr [run_folder])"

definition contents_run_folder :: contents where
  "contents_run_folder i p =
     ([DataObject (p @ ''/report.md''), Collection (p @ ''/pass''),
       DataObject (p @ ''/pass/reads.fastq'')], None)"

definition barcodes_one :: barcodes where
  "barcodes_one i coll tag =
     (case (coll, tag) of
        (Collection p, Some t) \<Rightarrow> Inr [Collection (p @ ''/'' @ t)]
      | _ \<Rightarrow> Inl (RodsError ''no such collection''))"

definition store_down_first :: store where
  "store_down_first i avus d c z =
     (if i = 0 then Inl (RodsError ''connection refused'') else Inr [cram])"

section \<open>Properties of illumina-updates\<close>

text \<open>The AVUs of a component can be built exactly when it has a tag index.\<close>

lemma illumina_avus_tagless:
  "tag_index c = None \<Longrightarrow> illumina_avus c = Inl ValueError"
  by (simp add: illumina_avus_def)

lemma illumina_avus_tagged:
  "tag_index c = Some t \<Longrightarrow>
   illumina_avus c =
     Inr [AVU Instrument_RUN (IntValue (id_run c)), AVU Instrument_LANE (IntValue (position c)),
          AVU SeqConcept_TAG_INDEX (IntValue t)]"
  by (simp add: illumina_avus_def)

lemma illumina_avus_Inl:
  "illumina_avus c = Inl e \<Longrightarrow> tagless c \<and> e = ValueError"
  by (cases "tag_index c") (simp_all add: illumina_avus_tagless illumina_avus_tagged tagless_def)

lemma illumina_avus_Inr:
  "illumina_avus c = Inr avus \<Longrightarrow> \<not> tagless c"
  by (cases "tag_index c") (simp_all add: illumina_avus_tagless illumina_avus_tagged tagless_def)

lemma run_of_illumina_call:
  "illumina_avus c = Inr avus \<Longrightarrow> run_of_call (QueryMetadata i avus d k z) = Some (id_run c)"
  by (cases "tag_index c") (auto simp: illumina_avus_tagless illumina_avus_tagged)

lemma skip_run_frame [simp]:
  "skip_run n (s\<lparr>num_processed := a\<rparr>) r = skip_run n s r"
  "skip_run n (s\<lparr>num_errors := b\<rparr>) r = skip_run n s r"
  "skip_run n (s\<lparr>printed := p\<rparr>) r = skip_run n s r"
  "skip_run n (s\<lparr>logged := l\<rparr>) r = skip_run n s r"
  "skip_run n (s\<lparr>calls := k\<rparr>) r = skip_run n s r"
  by (simp_all add: skip_run_def)

lemma illumina_item_processed:
  "num_processed (illumina_item q z n i c s) = num_processed s + 1"
  by (simp add: illumina_item_def caught_def Let_def split: sum.splits)

lemma illumina_item_invalid:
  "illumina_avus c = Inl e \<Longrightarrow>
   illumina_item q z n i c s =
     s\<lparr>num_processed := num_processed s + 1,
       num_errors := num_errors s + 1,
       logged := logged s @ [LogInfo ''Finding data objects'' i, LogException e i]\<rparr>"
  by (simp add: illumina_item_def caught_def Let_def)

lemma illumina_item_skip:
  "illumina_avus c = Inr avus \<Longrightarrow> skip_run n s (id_run c) \<Longrightarrow>
   illumina_item q z n i c s =
     s\<lparr>num_processed := num_processed s + 1,
       logged := logged s @ [LogInfo ''Finding data objects'' i,
         LogInfo ''Skipping run after unsuccessful attempts to find it'' i]\<rparr>"
  by (simp add: illumina_item_def Let_def)

lemma illumina_item_raise:
  "illumina_avus c = Inr avus \<Longrightarrow> \<not> skip_run n s (id_run c) \<Longrightarrow>
   q i avus True False z = Inl e \<Longrightarrow>
   illumina_item q z n i c s =
     s\<lparr>num_processed := num_processed s + 1,
       num_errors := num_errors s + 1,
       logged := logged s @ [LogInfo ''Finding data objects'' i, LogException e i],
       calls := calls s @ [QueryMetadata i avus True False z]\<rparr>"
  by (simp add: illumina_item_def caught_def Let_def)

lemma illumina_item_none:
  "illumina_avus c = Inr avus \<Longrightarrow> \<not> skip_run n s (id_run c) \<Longrightarrow>
   q i avus True False z = Inr [] \<Longrightarrow>
   illumina_item q z n i c s =
     s\<lparr>num_processed := num_processed s + 1,
       logged := logged s @ [LogInfo ''Finding data objects'' i],
       calls := calls s @ [QueryMetadata i avus True False z],
       attempts_per_run := (attempts_per_run s)(id_run c := attempts_per_run s (id_run c) + 1)\<rparr>"
  by (simp add: illumina_item_def Let_def)

lemma illumina_item_some:
  "illumina_avus c = Inr avus \<Longrightarrow> \<not> skip_run n s (id_run c) \<Longrightarrow>
   q i avus True False z = Inr (x # xs) \<Longrightarrow>
   illumina_item q z n i c s =
     s\<lparr>num_processed := num_processed s + 1,
       printed := printed s @ x # xs,
       logged := logged s @ [LogInfo ''Finding data objects'' i],
       calls := calls s @ [QueryMetadata i avus True False z],
       success_per_run := (success_per_run s)(id_run c := success_per_run s (id_run c) + 1)\<rparr>"
  by (simp add: illumina_item_def Let_def)

text \<open>The five ways an item can go.\<close>

lemma illumina_item_cases:
  obtains (invalid) e where "illumina_avus c = Inl e"
  | (skip) avus where "illumina_avus c = Inr avus" "skip_run n s (id_run c)"
  | (raise) avus e where "illumina_avus c = Inr avus" "\<not> skip_run n s (id_run c)"
      "q i avus True False z = Inl e"
  | (none) avus where "illumina_avus c = Inr avus" "\<not> skip_run n s (id_run c)"
      "q i avus True False z = Inr []"
  | (some) avus x xs where "illumina_avus c = Inr avus" "\<not> skip_run n s (id_run c)"
      "q i avus True False z = Inr (x # xs)"
proof (cases "illumina_avus c")
  case (Inl e)
  then show ?thesis by (rule invalid)
next
  case avus: (Inr avus)
  show ?thesis
  proof (cases "skip_run n s (id_run c)")
    case True
    with avus show ?thesis by (rule skip)
  next
    case False
    show ?thesis
    proof (cases "q i avus True False z")
      case (Inl e)
      with avus False show ?thesis by (rule raise)
    next
      case (Inr ys)
      show ?thesis
      proof (cases ys)
        case Nil
        with avus False Inr show ?thesis by (auto intro: none)
      next
        case (Cons x xs)
        with avus False Inr show ?thesis by (auto intro: some)
      qed
    qed
  qed
qed

lemma illumina_loop_append:
  "illumina_loop q z n i (xs @ ys) s =
   illumina_loop q z n (i + length xs) ys (illumina_loop q z n i xs s)"
  by (induction xs arbitrary: i s) simp_all

lemma illumina_loop_processed:
  "num_processed (illumina_loop q z n i cs s) = num_processed s + int (length cs)"
  by (induction cs arbitrary: i s) (simp_all add: illumina_item_processed)

lemma illumina_item_errors:
  "num_errors s \<le> num_errors (illumina_item q z n i c s) \<and>
   num_errors (illumina_item q z n i c s) \<le> num_errors s + 1"
  by (cases rule: illumina_item_cases [where n = n and s = s and c = c and q = q and i = i and z = z])
     (simp_all add: illumina_item_invalid illumina_item_skip illumina_item_raise
        illumina_item_none illumina_item_some)

lemma illumina_loop_errors:
  "num_errors s \<le> num_errors (illumina_loop q z n i cs s) \<and>
   num_errors (illumina_loop q z n i cs s) \<le> num_errors s + int (length cs)"
proof (induction cs arbitrary: i s)
  case Nil
  show ?case by simp
next
  case (Cons c cs)
  from Cons.IH [where i = "Suc i" and s = "illumina_item q z n i c s"]
    illumina_item_errors [where s = s and q = q and z = z and n = n and i = i and c = c]
  show ?case by simp
qed


text \<open>The per-run counters agree with the trace throughout a run.\<close>

lemma counted_init: "counted q illumina_init"
  by (simp add: counted_def illumina_init_def queries_for_def)

lemma counted_item:
  assumes "counted q s"
  shows "counted q (illumina_item q z n i c s)"
proof (cases rule: illumina_item_cases [where n = n and s = s and c = c and q = q and i = i and z = z])
  case (invalid e)
  with assms show ?thesis
    by (simp add: illumina_item_invalid counted_def)
next
  case (skip avus)
  with assms show ?thesis
    by (simp add: illumina_item_skip counted_def)
next
  case (raise avus e)
  with assms show ?thesis
    by (simp add: illumina_item_raise counted_def queries_for_def found_none_def
        found_some_def)
next
  case (none avus)
  with assms run_of_illumina_call [OF none(1)] show ?thesis
    by (simp add: illumina_item_none counted_def queries_for_def found_none_def
        found_some_def)
next
  case (some avus x xs)
  with assms run_of_illumina_call [OF some(1)] show ?thesis
    by (simp add: illumina_item_some counted_def queries_for_def found_none_def
        found_some_def)
qed

lemma counted_loop:
  "counted q s \<Longrightarrow> counted q (illumina_loop q z n i cs s)"
  by (induction cs arbitrary: i s) (simp_all add: counted_item)

text \<open>
  Every error is a store call that raised or a component whose AVUs could not be built.
\<close>

lemma errors_item:
  assumes "num_errors s = int (length (filter (raised q) (calls s))) + a"
  shows "num_errors (illumina_item q z n i c s) =
     int (length (filter (raised q) (calls (illumina_item q z n i c s)))) + a +
     (if tagless c then 1 else 0)"
proof (cases rule: illumina_item_cases [where n = n and s = s and c = c and q = q and i = i and z = z])
  case (invalid e)
  with assms illumina_avus_Inl [OF invalid] show ?thesis
    by (simp add: illumina_item_invalid)
next
  case (skip avus)
  with assms illumina_avus_Inr [OF skip(1)] show ?thesis
    by (simp add: illumina_item_skip)
next
  case (raise avus e)
  with assms illumina_avus_Inr [OF raise(1)] show ?thesis
    by (simp add: illumina_item_raise raised_def)
next
  case (none avus)
  with assms illumina_avus_Inr [OF none(1)] show ?thesis
    by (simp add: illumina_item_none raised_def)
next
  case (some avus x xs)
  with assms illumina_avus_Inr [OF some(1)] show ?thesis
    by (simp add: illumina_item_some raised_def)
qed

lemma errors_loop:
  "num_errors s = int (length (filter (raised q) (calls s))) + a \<Longrightarrow>
   num_errors (illumina_loop q z n i cs s) =
     int (length (filter (raised q) (calls (illumina_loop q z n i cs s)))) + a +
     int (length (filter tagless cs))"
proof (induction cs arbitrary: i s a)
  case Nil
  then show ?case by simp
next
  case (Cons c cs)
  from errors_item [OF Cons.prems, where z = z and n = n and i = i and c = c]
  have "num_errors (illumina_item q z n i c s) =
     int (length (filter (raised q) (calls (illumina_item q z n i c s)))) +
     (a + (if tagless c then 1 else 0))"
    by simp
  from Cons.IH [OF this, where i = "Suc i"] show ?case by simp
qed

text \<open>Once skipped, a run stays skipped and is not asked about again.\<close>

lemma skipped_item:
  assumes "skip_run n s r"
  shows "skip_run n (illumina_item q z n i c s) r \<and>
         queries_for r (calls (illumina_item q z n i c s)) = queries_for r (calls s)"
proof (cases rule: illumina_item_cases [where n = n and s = s and c = c and q = q and i = i and z = z])
  case (invalid e)
  with assms show ?thesis
    by (simp add: illumina_item_invalid)
next
  case (skip avus)
  with assms show ?thesis
    by (simp add: illumina_item_skip)
next
  case (raise avus e)
  with assms have "id_run c \<noteq> r" by auto
  with assms raise run_of_illumina_call [OF raise(1)] show ?thesis
    by (simp add: illumina_item_raise queries_for_def)
next
  case (none avus)
  with assms have "id_run c \<noteq> r" by auto
  with assms none run_of_illumina_call [OF none(1)] show ?thesis
    by (simp add: illumina_item_none queries_for_def skip_run_def)
next
  case (some avus x xs)
  with assms have "id_run c \<noteq> r" by auto
  with assms some run_of_illumina_call [OF some(1)] show ?thesis
    by (simp add: illumina_item_some queries_for_def skip_run_def)
qed

lemma skipped_loop:
  "skip_run n s r \<Longrightarrow>
   skip_run n (illumina_loop q z n i cs s) r \<and>
   queries_for r (calls (illumina_loop q z n i cs s)) = queries_for r (calls s)"
proof (induction cs arbitrary: i s)
  case Nil
  then show ?case by simp
next
  case (Cons c cs)
  from skipped_item [OF Cons.prems, where q = q and z = z and i = i and c = c]
  have 1: "skip_run n (illumina_item q z n i c s) r"
    and 2: "queries_for r (calls (illumina_item q z n i c s)) = queries_for r (calls s)"
    by simp_all
  from Cons.IH [OF 1, where i = "Suc i"] 2 show ?case by simp
qed

text \<open>An item of another run leaves the counters and the queries of run \<open>r\<close> alone.\<close>

lemma other_run_item:
  assumes "id_run c \<noteq> r"
  shows "attempts_per_run (illumina_item q z n i c s) r = attempts_per_run s r \<and>
         success_per_run (illumina_item q z n i c s) r = success_per_run s r \<and>
         queries_for r (calls (illumina_item q z n i c s)) = queries_for r (calls s)"
proof (cases rule: illumina_item_cases [where n = n and s = s and c = c and q = q and i = i and z = z])
  case (invalid e)
  then show ?thesis by (simp add: illumina_item_invalid)
next
  case (skip avus)
  then show ?thesis by (simp add: illumina_item_skip)
next
  case (raise avus e)
  with assms run_of_illumina_call [OF raise(1)] show ?thesis
    by (simp add: illumina_item_raise queries_for_def)
next
  case (none avus)
  with assms run_of_illumina_call [OF none(1)] show ?thesis
    by (simp add: illumina_item_none queries_for_def)
next
  case (some avus x xs)
  with assms run_of_illumina_call [OF some(1)] show ?thesis
    by (simp add: illumina_item_some queries_for_def)
qed


lemma never_found_item:
  assumes H: "\<forall>i c avus. id_run c = r \<and> illumina_avus c = Inr avus \<longrightarrow>
                q i avus True False z = Inr []"
    and N: "1 \<le> N"
    and S: "success_per_run s r = 0"
    and A: "attempts_per_run s r \<le> N"
  shows "success_per_run (illumina_item q z (Some N) i c s) r = 0 \<and>
         attempts_per_run (illumina_item q z (Some N) i c s) r =
           min N (attempts_per_run s r + (if id_run c = r \<and> \<not> tagless c then 1 else 0)) \<and>
         int (length (queries_for r (calls (illumina_item q z (Some N) i c s)))) =
           int (length (queries_for r (calls s))) +
           (attempts_per_run (illumina_item q z (Some N) i c s) r - attempts_per_run s r)"
proof (cases "id_run c = r")
  case False
  with other_run_item [OF False, where q = q and z = z and n = "Some N" and i = i and s = s] S A
  show ?thesis by simp
next
  case True
  show ?thesis
  proof (cases "illumina_avus c")
    case (Inl e)
    with illumina_avus_Inl [OF Inl] S A show ?thesis
      by (simp add: illumina_item_invalid)
  next
    case (Inr avus)
    with H True have E: "q i avus True False z = Inr []" by blast
    note T = illumina_avus_Inr [OF Inr]
    show ?thesis
    proof (cases "attempts_per_run s r = N")
      case full: True
      with S N True have "skip_run (Some N) s (id_run c)" by (simp add: skip_run_def)
      with True S full T Inr show ?thesis by (simp add: illumina_item_skip)
    next
      case less: False
      then have "\<not> skip_run (Some N) s (id_run c)" using True by (simp add: skip_run_def)
      with True S A less E T Inr run_of_illumina_call [OF Inr] show ?thesis
        by (simp add: illumina_item_none queries_for_def)
    qed
  qed
qed

lemma never_found_loop:
  assumes H: "\<forall>i c avus. id_run c = r \<and> illumina_avus c = Inr avus \<longrightarrow>
                q i avus True False z = Inr []"
    and N: "1 \<le> N"
  shows "success_per_run s r = 0 \<Longrightarrow> attempts_per_run s r \<le> N \<Longrightarrow>
         success_per_run (illumina_loop q z (Some N) i cs s) r = 0 \<and>
         attempts_per_run (illumina_loop q z (Some N) i cs s) r =
           min N (attempts_per_run s r +
             int (length (filter (\<lambda>c. id_run c = r \<and> \<not> tagless c) cs))) \<and>
         int (length (queries_for r (calls (illumina_loop q z (Some N) i cs s)))) =
           int (length (queries_for r (calls s))) +
           (attempts_per_run (illumina_loop q z (Some N) i cs s) r - attempts_per_run s r)"
proof (induction cs arbitrary: i s)
  case Nil
  then show ?case by simp
next
  case (Cons c cs)
  let ?s = "illumina_item q z (Some N) i c s"
  from never_found_item
    [where r = r and q = q and z = z and N = N and s = s and i = i and c = c, OF H N Cons.prems]
  have 1: "success_per_run ?s r = 0"
    and 2: "attempts_per_run ?s r =
              min N (attempts_per_run s r + (if id_run c = r \<and> \<not> tagless c then 1 else 0))"
    and 3: "int (length (queries_for r (calls ?s))) =
            int (length (queries_for r (calls s))) + (attempts_per_run ?s r - attempts_per_run s r)"
    by simp_all
  from 2 have 4: "attempts_per_run ?s r \<le> N" by simp
  from Cons.IH [OF 1 4, where i = "Suc i"] 2 3 Cons.prems show ?case
    by (auto simp: min_def)
qed

lemmas eval_illumina =
  illumina_item_def Let_def skip_run_def illumina_init_def illumina_avus_def lane_def plex_def
  caught_def queries_for_def

text \<open>
  Claim C1. With \<open>skip_absent_runs = N\<close> and \<open>N\<close> at least 1 (the option allows 1 to 100):
  if every lookup for a component of run \<open>r\<close> finds nothing, the store is asked about
  \<open>r\<close> exactly \<open>min N k\<close> times, \<open>k\<close> being the number of components of \<open>r\<close> in the scan whose
  AVUs can be built (those with a tag index: for the others no lookup is made), so at
  most \<open>N\<close> times, and \<open>r\<close> ends skipped exactly when \<open>N \<le> k\<close>. From any state in which \<open>r\<close>
  is skipped, whatever is processed next leaves \<open>r\<close> skipped and adds no query about it.
  And if any lookup made for \<open>r\<close> (the \<open>k\<close>-th, for any \<open>k\<close>, so in particular for \<open>k \<le> N\<close>)
  finds something, \<open>r\<close> is skipped after no prefix of the scan.
\<close>

theorem skip_absent_runs_bound:
  assumes N: "1 \<le> N"
  shows
    "((\<forall>i c avus. id_run c = r \<and> illumina_avus c = Inr avus \<longrightarrow>
          q i avus True False z = Inr []) \<longrightarrow>
        int (length (queries_for r (calls (illumina_loop q z (Some N) 0 comps illumina_init)))) =
          min N (int (length (filter (\<lambda>c. id_run c = r \<and> \<not> tagless c) comps))) \<and>
        int (length (queries_for r (calls (illumina_loop q z (Some N) 0 comps illumina_init))))
          \<le> N \<and>
        (skip_run (Some N) (illumina_loop q z (Some N) 0 comps illumina_init) r \<longleftrightarrow>
           N \<le> int (length (filter (\<lambda>c. id_run c = r \<and> \<not> tagless c) comps)))) \<and>
     (skip_run (Some N) s r \<longrightarrow>
        skip_run (Some N) (illumina_loop q z (Some N) i cs s) r \<and>
        queries_for r (calls (illumina_loop q z (Some N) i cs s)) = queries_for r (calls s)) \<and>
     ((\<exists>k < length (queries_for r (calls (illumina_loop q z (Some N) 0 comps illumina_init))).
          found_some q
            (queries_for r (calls (illumina_loop q z (Some N) 0 comps illumina_init)) ! k)) \<longrightarrow>
        (\<forall>m. \<not> skip_run (Some N)
               (illumina_loop q z (Some N) 0 (take m comps) illumina_init) r))"
proof (intro conjI impI allI)
  let ?final = "illumina_loop q z (Some N) 0 comps illumina_init"
  let ?k = "int (length (filter (\<lambda>c. id_run c = r \<and> \<not> tagless c) comps))"
  {
    assume H: "\<forall>i c avus. id_run c = r \<and> illumina_avus c = Inr avus \<longrightarrow>
                 q i avus True False z = Inr []"
    have S0: "success_per_run illumina_init r = 0" and A0: "attempts_per_run illumina_init r \<le> N"
      using N by (simp_all add: illumina_init_def)
    from never_found_loop
      [where r = r and q = q and z = z and N = N and s = illumina_init and i = 0 and cs = comps,
       OF H N S0 A0]
    have 1: "success_per_run ?final r = 0"
      and 2: "attempts_per_run ?final r = min N ?k"
      and 3: "int (length (queries_for r (calls ?final))) = attempts_per_run ?final r"
      by (simp_all add: illumina_init_def queries_for_def)
    from 2 3 show "int (length (queries_for r (calls ?final))) = min N ?k" by simp
    from 2 3 show "int (length (queries_for r (calls ?final))) \<le> N" by simp
    from 1 2 N show "skip_run (Some N) ?final r \<longleftrightarrow> N \<le> ?k"
      by (auto simp: skip_run_def min_def)
  }
  {
    assume "skip_run (Some N) s r"
    from skipped_loop [OF this, where q = q and z = z and i = i and cs = cs]
    show "skip_run (Some N) (illumina_loop q z (Some N) i cs s) r"
      and "queries_for r (calls (illumina_loop q z (Some N) i cs s)) = queries_for r (calls s)"
      by simp_all
  }
  {
    fix m
    assume F: "\<exists>k < length (queries_for r (calls ?final)).
                 found_some q (queries_for r (calls ?final) ! k)"
    let ?prefix = "illumina_loop q z (Some N) 0 (take m comps) illumina_init"
    have "counted q ?final" by (rule counted_loop [OF counted_init])
    then have C: "success_per_run ?final r =
        int (length (filter (found_some q) (queries_for r (calls ?final))))"
      by (simp add: counted_def)
    from F obtain k where "k < length (queries_for r (calls ?final))"
      and "found_some q (queries_for r (calls ?final) ! k)" by blast
    then have "filter (found_some q) (queries_for r (calls ?final)) \<noteq> []"
      by (auto simp: filter_empty_conv)
    with C have pos: "0 < success_per_run ?final r" by simp
    show "\<not> skip_run (Some N) ?prefix r"
    proof
      assume "skip_run (Some N) ?prefix r"
      from skipped_loop [OF this, where q = q and z = z and i = "0 + length (take m comps)"
          and cs = "drop m comps"]
      have "skip_run (Some N) (illumina_loop q z (Some N) 0 (take m comps @ drop m comps)
              illumina_init) r"
        by (simp only: illumina_loop_append)
      then have "skip_run (Some N) ?final r" by simp
      with pos show False by (simp add: skip_run_def)
    qed
  }
qed

theorem skip_absent_runs_bound_witness:
  "(1::int) \<le> 2 \<and>
   length (queries_for 7 (calls (illumina_loop store_empty None (Some 2) 0
     [plex 7 1 1, lane 7 2, plex 7 1 2, plex 8 1 1, plex 7 1 3] illumina_init))) = 2 \<and>
   skip_run (Some 2) (illumina_loop store_empty None (Some 2) 0
     [plex 7 1 1, lane 7 2, plex 7 1 2, plex 8 1 1, plex 7 1 3] illumina_init) 7 \<and>
   \<not> skip_run (Some 2) (illumina_loop store_found_second None (Some 2) 0
     [plex 7 1 1, plex 7 1 2, plex 8 1 1, plex 7 1 3] illumina_init) 7"
proof -
  have N: "(1::int) \<le> 2" by simp
  have E: "\<forall>i c avus. id_run c = 7 \<and> illumina_avus c = Inr avus \<longrightarrow>
      store_empty i avus True False None = Inr []"
    by (simp add: store_empty_def)
  have F: "\<exists>k < length (queries_for 7 (calls (illumina_loop store_found_second None (Some 2) 0
       [plex 7 1 1, plex 7 1 2, plex 8 1 1, plex 7 1 3] illumina_init))).
     found_some store_found_second
       (queries_for 7 (calls (illumina_loop store_found_second None (Some 2) 0
          [plex 7 1 1, plex 7 1 2, plex 8 1 1, plex 7 1 3] illumina_init)) ! k)"
    by (rule exI [of _ 1]) (simp add: eval_illumina store_found_second_def found_some_def)
  from skip_absent_runs_bound [OF N, where r = 7 and q = store_empty and z = None
      and comps = "[plex 7 1 1, lane 7 2, plex 7 1 2, plex 8 1 1, plex 7 1 3]"] E
  have 1: "int (length (queries_for 7 (calls (illumina_loop store_empty None (Some 2) 0
     [plex 7 1 1, lane 7 2, plex 7 1 2, plex 8 1 1, plex 7 1 3] illumina_init)))) = 2"
    and 2: "skip_run (Some 2) (illumina_loop store_empty None (Some 2) 0
     [plex 7 1 1, lane 7 2, plex 7 1 2, plex 8 1 1, plex 7 1 3] illumina_init) 7"
    by (simp_all add: lane_def plex_def tagless_def)
  from skip_absent_runs_bound [OF N, where r = 7 and q = store_found_second and z = None
      and comps = "[plex 7 1 1, plex 7 1 2, plex 8 1 1, plex 7 1 3]"] F
  have "\<forall>m. \<not> skip_run (Some 2) (illumina_loop store_found_second None (Some 2) 0
     (take m [plex 7 1 1, plex 7 1 2, plex 8 1 1, plex 7 1 3]) illumina_init) 7"
    by blast
  from this [rule_format, of 4]
  have 3: "\<not> skip_run (Some 2) (illumina_loop store_found_second None (Some 2) 0
     [plex 7 1 1, plex 7 1 2, plex 8 1 1, plex 7 1 3] illumina_init) 7"
    by simp
  from N 1 2 3 show ?thesis by simp
qed


lemma attempts_item_mono:
  "attempts_per_run s r \<le> attempts_per_run (illumina_item q z n i c s) r \<and>
   success_per_run s r \<le> success_per_run (illumina_item q z n i c s) r"
  by (cases rule: illumina_item_cases [where n = n and s = s and c = c and q = q and i = i and z = z])
     (simp_all add: illumina_item_invalid illumina_item_skip illumina_item_raise
        illumina_item_none illumina_item_some)

lemma attempts_loop_mono:
  "attempts_per_run s r \<le> attempts_per_run (illumina_loop q z n i cs s) r \<and>
   success_per_run s r \<le> success_per_run (illumina_loop q z n i cs s) r"
proof (induction cs arbitrary: i s)
  case Nil
  show ?case by simp
next
  case (Cons c cs)
  from Cons.IH [where i = "Suc i" and s = "illumina_item q z n i c s"]
    attempts_item_mono [where s = s and r = r and q = q and z = z and n = n and i = i and c = c]
  show ?case by simp
qed

lemma other_run_loop:
  "r \<notin> id_run ` set cs \<Longrightarrow>
   attempts_per_run (illumina_loop q z n i cs s) r = attempts_per_run s r \<and>
   success_per_run (illumina_loop q z n i cs s) r = success_per_run s r"
proof (induction cs arbitrary: i s)
  case Nil
  show ?case by simp
next
  case (Cons c cs)
  then have "id_run c \<noteq> r" and "r \<notin> id_run ` set cs" by auto
  from Cons.IH [OF this(2), where i = "Suc i" and s = "illumina_item q z n i c s"]
    other_run_item [OF this(1), where q = q and z = z and n = n and i = i and s = s]
  show ?case by simp
qed

text \<open>
  Claim C2, as amended. A lookup for a component of run \<open>r\<close> that finds nothing adds one
  to the attempts of \<open>r\<close>, whether or not \<open>r\<close> has successes, and leaves every success
  counter as it was; a lookup that finds something adds one to the successes of \<open>r\<close> and
  leaves every attempt counter as it was (nothing is reset). A lookup is made for a
  component whose AVUs were built and whose run is not skipped. Over any stretch of the
  scan no attempt counter decreases, and the counters of a run that has no component in
  the stretch do not change: they are keyed by the run identifier.
\<close>

theorem attempt_counter_updates:
  "(illumina_avus c = Inr avus \<and> \<not> skip_run n s (id_run c) \<and>
    q i avus True False z = Inr [] \<longrightarrow>
      attempts_per_run (illumina_item q z n i c s) (id_run c) =
        attempts_per_run s (id_run c) + 1 \<and>
      success_per_run (illumina_item q z n i c s) = success_per_run s) \<and>
   (illumina_avus c = Inr avus \<and> \<not> skip_run n s (id_run c) \<and>
    q i avus True False z = Inr (x # xs) \<longrightarrow>
      attempts_per_run (illumina_item q z n i c s) = attempts_per_run s \<and>
      success_per_run (illumina_item q z n i c s) (id_run c) =
        success_per_run s (id_run c) + 1) \<and>
   attempts_per_run s r \<le> attempts_per_run (illumina_loop q z n i cs s) r \<and>
   (r \<notin> id_run ` set cs \<longrightarrow>
      attempts_per_run (illumina_loop q z n i cs s) r = attempts_per_run s r \<and>
      success_per_run (illumina_loop q z n i cs s) r = success_per_run s r)"
proof (intro conjI impI)
  assume "illumina_avus c = Inr avus \<and> \<not> skip_run n s (id_run c) \<and>
    q i avus True False z = Inr []"
  then have E: "illumina_item q z n i c s =
      s\<lparr>num_processed := num_processed s + 1,
        logged := logged s @ [LogInfo ''Finding data objects'' i],
        calls := calls s @ [QueryMetadata i avus True False z],
        attempts_per_run := (attempts_per_run s)(id_run c := attempts_per_run s (id_run c) + 1)\<rparr>"
    by (simp add: illumina_item_none)
  show "attempts_per_run (illumina_item q z n i c s) (id_run c) =
        attempts_per_run s (id_run c) + 1"
    by (simp add: E)
  show "success_per_run (illumina_item q z n i c s) = success_per_run s"
    by (simp add: E)
next
  assume "illumina_avus c = Inr avus \<and> \<not> skip_run n s (id_run c) \<and>
    q i avus True False z = Inr (x # xs)"
  then have E: "illumina_item q z n i c s =
     s\<lparr>num_processed := num_processed s + 1,
       printed := printed s @ x # xs,
       logged := logged s @ [LogInfo ''Finding data objects'' i],
       calls := calls s @ [QueryMetadata i avus True False z],
       success_per_run := (success_per_run s)(id_run c := success_per_run s (id_run c) + 1)\<rparr>"
    by (simp add: illumina_item_some)
  show "attempts_per_run (illumina_item q z n i c s) = attempts_per_run s"
    by (simp add: E)
  show "success_per_run (illumina_item q z n i c s) (id_run c) =
        success_per_run s (id_run c) + 1"
    by (simp add: E)
next
  show "attempts_per_run s r \<le> attempts_per_run (illumina_loop q z n i cs s) r"
    using attempts_loop_mono [where s = s and r = r and q = q and z = z and n = n and i = i and cs = cs]
    by simp
next
  assume "r \<notin> id_run ` set cs"
  from other_run_loop [OF this, where q = q and z = z and n = n and i = i and s = s]
  show "attempts_per_run (illumina_loop q z n i cs s) r = attempts_per_run s r"
    and "success_per_run (illumina_loop q z n i cs s) r = success_per_run s r"
    by simp_all
qed

theorem attempt_counter_updates_witness:
  "attempts_per_run (illumina_item store_empty None (Some 10) 1 (plex 7 1 2)
      (illumina_loop store_found_first None (Some 10) 0 [plex 7 1 1] illumina_init)) 7 = 1 \<and>
   success_per_run (illumina_item store_found_second None (Some 10) 1 (plex 7 1 2)
      (illumina_loop store_found_second None (Some 10) 0 [plex 7 1 1] illumina_init)) 7 = 1 \<and>
   attempts_per_run (illumina_item store_found_second None (Some 10) 1 (plex 7 1 2)
      (illumina_loop store_found_second None (Some 10) 0 [plex 7 1 1] illumina_init)) 7 = 1 \<and>
   attempts_per_run (illumina_loop store_empty None (Some 10) 0 [plex 7 1 1, plex 7 1 2]
      illumina_init) 8 = 0"
proof -
  let ?s1 = "illumina_loop store_found_first None (Some 10) 0 [plex 7 1 1] illumina_init"
  let ?s2 = "illumina_loop store_found_second None (Some 10) 0 [plex 7 1 1] illumina_init"
  let ?avus = "[AVU Instrument_RUN (IntValue 7), AVU Instrument_LANE (IntValue 1),
      AVU SeqConcept_TAG_INDEX (IntValue 2)]"
  have v: "illumina_avus (plex 7 1 2) = Inr ?avus"
    by (simp add: illumina_avus_def plex_def)
  have a1: "attempts_per_run ?s1 7 = 0" and s1: "success_per_run ?s1 7 = 1"
    by (simp_all add: eval_illumina store_found_first_def cram_def)
  have a2: "attempts_per_run ?s2 7 = 1" and s2: "success_per_run ?s2 7 = 0"
    by (simp_all add: eval_illumina store_found_second_def cram_def)
  have n1: "\<not> skip_run (Some 10) ?s1 (id_run (plex 7 1 2))"
    using s1 by (simp add: skip_run_def plex_def)
  have n2: "\<not> skip_run (Some 10) ?s2 (id_run (plex 7 1 2))"
    using a2 by (simp add: skip_run_def plex_def)
  from attempt_counter_updates [where n = "Some 10" and s = ?s1 and c = "plex 7 1 2"
      and q = store_empty and i = 1 and z = None and avus = ?avus] v n1 a1
  have 1: "attempts_per_run (illumina_item store_empty None (Some 10) 1 (plex 7 1 2) ?s1) 7 = 1"
    by (simp add: store_empty_def plex_def)
  from attempt_counter_updates [where n = "Some 10" and s = ?s2 and c = "plex 7 1 2"
      and q = store_found_second and i = 1 and z = None and x = cram and xs = "[]"
      and avus = ?avus] v n2 a2 s2
  have 2: "success_per_run (illumina_item store_found_second None (Some 10) 1 (plex 7 1 2) ?s2) 7 = 1"
    and 3: "attempts_per_run (illumina_item store_found_second None (Some 10) 1 (plex 7 1 2) ?s2) 7 = 1"
    by (simp_all add: store_found_second_def plex_def)
  from attempt_counter_updates [where n = "Some 10" and s = illumina_init and r = 8
      and cs = "[plex 7 1 1, plex 7 1 2]" and q = store_empty and i = 0 and z = None]
  have 4: "attempts_per_run (illumina_loop store_empty None (Some 10) 0 [plex 7 1 1, plex 7 1 2]
      illumina_init) 8 = 0"
    by (simp add: plex_def illumina_init_def)
  from 1 2 3 4 show ?thesis by simp
qed

text \<open>
  Claim C2 as stated fails twice, on components that carry a tag index, so that their
  lookups are made. With a store that finds the first plex of run 7 and nothing for the
  second, the second lookup raises the attempts of run 7 from 0 to 1 although the run has
  a success. With a store that finds nothing for the first plex and something for the
  second, the attempts of run 7 are 1 before the successful lookup and still 1 after it.
\<close>

theorem attempt_counter_counterexample:
  "calls (illumina_loop store_found_first None (Some 10) 0 [plex 7 1 1, plex 7 1 2]
      illumina_init) =
     [QueryMetadata 0 [AVU Instrument_RUN (IntValue 7), AVU Instrument_LANE (IntValue 1),
        AVU SeqConcept_TAG_INDEX (IntValue 1)] True False None,
      QueryMetadata 1 [AVU Instrument_RUN (IntValue 7), AVU Instrument_LANE (IntValue 1),
        AVU SeqConcept_TAG_INDEX (IntValue 2)] True False None] \<and>
   found_none store_found_first
     (QueryMetadata 1 [AVU Instrument_RUN (IntValue 7), AVU Instrument_LANE (IntValue 1),
        AVU SeqConcept_TAG_INDEX (IntValue 2)] True False None) \<and>
   success_per_run (illumina_loop store_found_first None (Some 10) 0 [plex 7 1 1] illumina_init) 7 = 1 \<and>
   attempts_per_run (illumina_loop store_found_first None (Some 10) 0 [plex 7 1 1] illumina_init) 7 = 0 \<and>
   attempts_per_run (illumina_loop store_found_first None (Some 10) 0 [plex 7 1 1, plex 7 1 2]
      illumina_init) 7 = 1 \<and>
   attempts_per_run (illumina_loop store_found_second None (Some 10) 0 [plex 7 1 1] illumina_init) 7 = 1 \<and>
   found_some store_found_second
     (QueryMetadata 1 [AVU Instrument_RUN (IntValue 7), AVU Instrument_LANE (IntValue 1),
        AVU SeqConcept_TAG_INDEX (IntValue 2)] True False None) \<and>
   success_per_run (illumina_loop store_found_second None (Some 10) 0 [plex 7 1 1, plex 7 1 2]
      illumina_init) 7 = 1 \<and>
   attempts_per_run (illumina_loop store_found_second None (Some 10) 0 [plex 7 1 1, plex 7 1 2]
      illumina_init) 7 = 1"
  by (simp add: eval_illumina store_found_first_def store_found_second_def cram_def found_some_def
      found_none_def)


lemma illumina_updates_final:
  "fst (illumina_updates q z n comps) =
     (illumina_loop q z n 0 comps illumina_init)
       \<lparr>logged := logged (illumina_loop q z n 0 comps illumina_init) @
          [LogSummary (num_processed (illumina_loop q z n 0 comps illumina_init))
             (num_errors (illumina_loop q z n 0 comps illumina_init))]\<rparr>"
  by (simp add: illumina_updates_def Let_def)

lemma counted_final: "counted q (fst (illumina_updates q z n comps))"
proof -
  have "counted q (illumina_loop q z n 0 comps illumina_init)"
    by (rule counted_loop [OF counted_init])
  then show ?thesis by (simp add: illumina_updates_final counted_def)
qed

lemma errors_final:
  "num_errors (fst (illumina_updates q z n comps)) =
     int (length (filter (raised q) (calls (fst (illumina_updates q z n comps))))) +
     int (length (filter tagless comps))"
proof -
  have "num_errors illumina_init =
      int (length (filter (raised q) (calls illumina_init))) + 0"
    by (simp add: illumina_init_def)
  from errors_loop [OF this, where z = z and n = n and i = 0 and cs = comps]
  show ?thesis by (simp add: illumina_updates_final)
qed

text \<open>
  Claim C4. When the lookup for a component raises, the item ends with one more error,
  the exception logged, nothing printed and both per-run counters as they were, and the
  loop goes on to process every component after it. Over a whole run the errors are
  exactly the calls that raised and the components whose AVUs could not be built, the
  attempts of a run the calls about it that found nothing and its successes the calls
  about it that found something: a call that raised counts in neither.
\<close>

theorem failed_lookup_is_counted_and_changes_no_counter:
  "(illumina_avus c = Inr avus \<and> \<not> skip_run n s (id_run c) \<and>
    q i avus True False z = Inl e \<longrightarrow>
      num_errors (illumina_item q z n i c s) = num_errors s + 1 \<and>
      attempts_per_run (illumina_item q z n i c s) = attempts_per_run s \<and>
      success_per_run (illumina_item q z n i c s) = success_per_run s \<and>
      printed (illumina_item q z n i c s) = printed s \<and>
      logged (illumina_item q z n i c s) =
        logged s @ [LogInfo ''Finding data objects'' i, LogException e i] \<and>
      num_processed (illumina_loop q z n i (c # cs) s) = num_processed s + 1 + int (length cs)) \<and>
   num_errors (fst (illumina_updates q z n comps)) =
     int (length (filter (raised q) (calls (fst (illumina_updates q z n comps))))) +
     int (length (filter tagless comps)) \<and>
   attempts_per_run (fst (illumina_updates q z n comps)) r =
     int (length (filter (found_none q)
       (queries_for r (calls (fst (illumina_updates q z n comps)))))) \<and>
   success_per_run (fst (illumina_updates q z n comps)) r =
     int (length (filter (found_some q)
       (queries_for r (calls (fst (illumina_updates q z n comps))))))"
proof (intro conjI impI)
  assume "illumina_avus c = Inr avus \<and> \<not> skip_run n s (id_run c) \<and>
    q i avus True False z = Inl e"
  then have E: "illumina_item q z n i c s =
     s\<lparr>num_processed := num_processed s + 1,
       num_errors := num_errors s + 1,
       logged := logged s @ [LogInfo ''Finding data objects'' i, LogException e i],
       calls := calls s @ [QueryMetadata i avus True False z]\<rparr>"
    by (simp add: illumina_item_raise)
  show "num_errors (illumina_item q z n i c s) = num_errors s + 1" by (simp add: E)
  show "attempts_per_run (illumina_item q z n i c s) = attempts_per_run s" by (simp add: E)
  show "success_per_run (illumina_item q z n i c s) = success_per_run s" by (simp add: E)
  show "printed (illumina_item q z n i c s) = printed s" by (simp add: E)
  show "logged (illumina_item q z n i c s) =
        logged s @ [LogInfo ''Finding data objects'' i, LogException e i]" by (simp add: E)
  show "num_processed (illumina_loop q z n i (c # cs) s) = num_processed s + 1 + int (length cs)"
    by (simp add: illumina_loop_processed illumina_item_processed)
next
  show "num_errors (fst (illumina_updates q z n comps)) =
     int (length (filter (raised q) (calls (fst (illumina_updates q z n comps))))) +
     int (length (filter tagless comps))"
    by (rule errors_final)
next
  from counted_final [of q z n comps]
  show "attempts_per_run (fst (illumina_updates q z n comps)) r =
     int (length (filter (found_none q)
       (queries_for r (calls (fst (illumina_updates q z n comps))))))"
    and "success_per_run (fst (illumina_updates q z n comps)) r =
     int (length (filter (found_some q)
       (queries_for r (calls (fst (illumina_updates q z n comps))))))"
    by (simp_all add: counted_def)
qed

theorem failed_lookup_witness:
  "num_errors (illumina_item store_down_first None (Some 10) 0 (plex 7 1 1) illumina_init) = 1 \<and>
   attempts_per_run (illumina_item store_down_first None (Some 10) 0 (plex 7 1 1) illumina_init) 7 = 0 \<and>
   success_per_run (illumina_item store_down_first None (Some 10) 0 (plex 7 1 1) illumina_init) 7 = 0 \<and>
   num_processed (illumina_loop store_down_first None (Some 10) 0 [plex 7 1 1, plex 7 1 2]
     illumina_init) = 2 \<and>
   success_per_run (fst (illumina_updates store_down_first None (Some 10)
     [plex 7 1 1, plex 7 1 2])) 7 = 1 \<and>
   num_errors (fst (illumina_updates store_down_first None (Some 10)
     [plex 7 1 1, plex 7 1 2, lane 7 3])) = 2"
proof -
  let ?avus = "[AVU Instrument_RUN (IntValue 7), AVU Instrument_LANE (IntValue 1),
      AVU SeqConcept_TAG_INDEX (IntValue 1)]"
  have v: "illumina_avus (plex 7 1 1) = Inr ?avus"
    by (simp add: illumina_avus_def plex_def)
  have n: "\<not> skip_run (Some 10) illumina_init (id_run (plex 7 1 1))"
    by (simp add: skip_run_def illumina_init_def)
  have e: "store_down_first 0 ?avus True False None = Inl (RodsError ''connection refused'')"
    by (simp add: store_down_first_def)
  have r: "length (filter (raised store_down_first) (calls (fst (illumina_updates
      store_down_first None (Some 10) [plex 7 1 1, plex 7 1 2, lane 7 3])))) = 1"
    by (simp add: illumina_updates_def eval_illumina store_down_first_def raised_def)
  from failed_lookup_is_counted_and_changes_no_counter
    [where n = "Some 10" and s = illumina_init and c = "plex 7 1 1" and q = store_down_first
      and i = 0 and z = None and e = "RodsError ''connection refused''" and cs = "[plex 7 1 2]"
      and comps = "[plex 7 1 1, plex 7 1 2, lane 7 3]" and avus = ?avus] v n e r
  have 1: "num_errors (illumina_item store_down_first None (Some 10) 0 (plex 7 1 1)
      illumina_init) = 1"
    and 2: "attempts_per_run (illumina_item store_down_first None (Some 10) 0 (plex 7 1 1)
      illumina_init) 7 = 0"
    and 3: "success_per_run (illumina_item store_down_first None (Some 10) 0 (plex 7 1 1)
      illumina_init) 7 = 0"
    and 4: "num_processed (illumina_loop store_down_first None (Some 10) 0
      [plex 7 1 1, plex 7 1 2] illumina_init) = 2"
    and 6: "num_errors (fst (illumina_updates store_down_first None (Some 10)
      [plex 7 1 1, plex 7 1 2, lane 7 3])) = 2"
    by (simp_all add: illumina_init_def tagless_def lane_def plex_def)
  have 5: "success_per_run (fst (illumina_updates store_down_first None (Some 10)
     [plex 7 1 1, plex 7 1 2])) 7 = 1"
    by (simp add: illumina_updates_def eval_illumina store_down_first_def)
  from 1 2 3 4 5 6 show ?thesis by simp
qed







text \<open>
  Claim C10. Every path through the body of the loop adds one to \<open>num_processed\<close>, so
  the count reported at the end is the number of components the scan yielded, skipped and
  failed ones included, and \<open>num_errors\<close> lies between 0 and it.
\<close>

theorem every_component_is_counted:
  "num_processed (illumina_item q z n i c s) = num_processed s + 1 \<and>
   num_processed (fst (illumina_updates q z n comps)) = int (length comps) \<and>
   0 \<le> num_errors (fst (illumina_updates q z n comps)) \<and>
   num_errors (fst (illumina_updates q z n comps)) \<le>
     num_processed (fst (illumina_updates q z n comps)) \<and>
   last (logged (fst (illumina_updates q z n comps))) =
     LogSummary (int (length comps)) (num_errors (fst (illumina_updates q z n comps)))"
proof -
  let ?s = "illumina_loop q z n 0 comps illumina_init"
  have p: "num_processed ?s = int (length comps)"
    by (simp add: illumina_loop_processed illumina_init_def)
  from illumina_loop_errors [where s = illumina_init and q = q and z = z and n = n and i = 0
      and cs = comps]
  have e: "0 \<le> num_errors ?s" "num_errors ?s \<le> int (length comps)"
    by (simp_all add: illumina_init_def)
  from p e show ?thesis
    by (simp add: illumina_updates_final illumina_item_processed)
qed

theorem every_component_is_counted_witness:
  "num_processed (fst (illumina_updates store_down_first None (Some 1)
     [plex 8 1 1, lane 7 1, plex 7 1 1, plex 7 1 2])) = 4 \<and>
   num_errors (fst (illumina_updates store_down_first None (Some 1)
     [plex 8 1 1, lane 7 1, plex 7 1 1, plex 7 1 2])) = 2"
proof -
  have "num_errors (fst (illumina_updates store_down_first None (Some 1)
     [plex 8 1 1, lane 7 1, plex 7 1 1, plex 7 1 2])) = 2"
    by (simp add: illumina_updates_def eval_illumina store_down_first_def)
  with every_component_is_counted [where q = store_down_first and z = None and n = "Some 1"
      and comps = "[plex 8 1 1, lane 7 1, plex 7 1 1, plex 7 1 2]"]
  show ?thesis by simp
qed

section \<open>Properties of consent-withdrawn\<close>

text \<open>
  Walking the matched collections only adds store calls for the item at hand and prints
  only data objects.
\<close>

lemma consent_colls_shape:
  "\<exists>cs ps. fst (consent_colls ic i colls st) =
       st\<lparr>printed := printed st @ ps, calls := calls st @ cs\<rparr> \<and>
     list_all is_data_object ps \<and> list_all (\<lambda>call. call_item call = i) cs"
proof (induction colls arbitrary: st)
  case Nil
  have "fst (consent_colls ic i [] st) = st\<lparr>printed := printed st @ [], calls := calls st @ []\<rparr>"
    by simp
  moreover have "list_all is_data_object []" and "list_all (\<lambda>call. call_item call = i) []"
    by simp_all
  ultimately show ?case by blast
next
  case (Cons coll colls)
  show ?case
  proof (cases coll)
    case (DataObject p)
    then have "fst (consent_colls ic i (coll # colls) st) =
        st\<lparr>printed := printed st @ [], calls := calls st @ []\<rparr>"
      by simp
    moreover have "list_all is_data_object []" and "list_all (\<lambda>call. call_item call = i) []"
      by simp_all
    ultimately show ?thesis by blast
  next
    case (Collection p)
    obtain items err where ic: "ic i p = (items, err)" by (cases "ic i p")
    let ?st2 = "st\<lparr>calls := calls st @ [IterContents i p],
        printed := printed st @ filter is_data_object items\<rparr>"
    show ?thesis
    proof (cases err)
      case (Some e)
      with Collection ic have "fst (consent_colls ic i (coll # colls) st) =
          st\<lparr>printed := printed st @ filter is_data_object items,
             calls := calls st @ [IterContents i p]\<rparr>"
        by simp
      moreover have "list_all is_data_object (filter is_data_object items)"
        by (simp add: list_all_iff)
      moreover have "list_all (\<lambda>call. call_item call = i) [IterContents i p]" by simp
      ultimately show ?thesis by blast
    next
      case None
      from Cons.IH [where st = ?st2] obtain cs ps where
        1: "fst (consent_colls ic i colls ?st2) =
              ?st2\<lparr>printed := printed ?st2 @ ps, calls := calls ?st2 @ cs\<rparr>"
        and 2: "list_all is_data_object ps" and 3: "list_all (\<lambda>call. call_item call = i) cs"
        by blast
      from Collection ic None 1 have "fst (consent_colls ic i (coll # colls) st) =
          st\<lparr>printed := printed st @ (filter is_data_object items @ ps),
             calls := calls st @ (IterContents i p # cs)\<rparr>"
        by simp
      moreover from 2 have "list_all is_data_object (filter is_data_object items @ ps)"
        by (auto simp: list_all_iff)
      moreover from 3 have "list_all (\<lambda>call. call_item call = i) (IterContents i p # cs)"
        by simp
      ultimately show ?thesis by blast
    qed
  qed
qed

lemma consent_item_missing:
  "id_sample_lims s = None \<Longrightarrow>
   consent_item q ic z i s st =
     st\<lparr>num_processed := num_processed st + 1,
        num_errors := num_errors st + 1,
        logged := logged st @
          [LogInfo ''Finding data objects'' i, LogError ''Missing id_sample_lims'' i]\<rparr>"
  by (simp add: consent_item_def)

text \<open>The shape of the state after an item whose sample has an identifier.\<close>

lemma consent_item_present:
  assumes v: "id_sample_lims s = Some v"
  shows "\<exists>k l cs ps. consent_item q ic z i s st =
       st\<lparr>num_processed := num_processed st + 1,
          num_errors := num_errors st + k,
          logged := logged st @ LogInfo ''Finding data objects'' i # l,
          printed := printed st @ ps,
          calls := calls st @ cs\<rparr> \<and>
     (k = 0 \<or> k = 1) \<and>
     list_all (\<lambda>call. call_item call = i) cs \<and>
     ((\<forall>j avus zone xs. q j avus True False zone = Inr xs \<longrightarrow> list_all is_data_object xs)
        \<longrightarrow> list_all is_data_object ps)"
proof -
  let ?query = "[AVU TrackedSample_ID (StrValue v)]"
  let ?Q1 = "QueryMetadata i ?query True False z"
  let ?Q2 = "QueryMetadata i ?query False True z"
  let ?P = "\<lambda>k l cs ps. consent_item q ic z i s st =
       st\<lparr>num_processed := num_processed st + 1,
          num_errors := num_errors st + k,
          logged := logged st @ LogInfo ''Finding data objects'' i # l,
          printed := printed st @ ps,
          calls := calls st @ cs\<rparr> \<and>
     (k = 0 \<or> k = 1) \<and>
     list_all (\<lambda>call. call_item call = i) cs \<and>
     ((\<forall>j avus zone xs. q j avus True False zone = Inr xs \<longrightarrow> list_all is_data_object xs)
        \<longrightarrow> list_all is_data_object ps)"
  show ?thesis
  proof (cases "q i ?query True False z")
    case (Inl e)
    with v have "?P 1 [LogException e i] [?Q1] []"
      by (simp add: consent_item_def caught_def Let_def)
    then show ?thesis by blast
  next
    case objs: (Inr objs)
    show ?thesis
    proof (cases "q i ?query False True z")
      case (Inl e)
      with v objs have "?P 1 [LogException e i] [?Q1, ?Q2] objs"
        by (auto simp: consent_item_def caught_def Let_def)
      then show ?thesis by blast
    next
      case colls: (Inr colls)
      let ?st3 = "st\<lparr>num_processed := num_processed st + 1,
          logged := logged st @ [LogInfo ''Finding data objects'' i],
          calls := calls st @ [?Q1],
          printed := printed st @ objs,
          calls := (calls st @ [?Q1]) @ [?Q2]\<rparr>"
      obtain st4 err where r: "consent_colls ic i colls ?st3 = (st4, err)"
        by (cases "consent_colls ic i colls ?st3")
      from consent_colls_shape [where ic = ic and i = i and colls = colls and st = ?st3] r obtain cs ps where
        1: "st4 = ?st3\<lparr>printed := printed ?st3 @ ps, calls := calls ?st3 @ cs\<rparr>"
        and 2: "list_all is_data_object ps" and 3: "list_all (\<lambda>call. call_item call = i) cs"
        by auto
      show ?thesis
      proof (cases err)
        case None
        with v objs colls r 1 2 3 have "?P 0 [] (?Q1 # ?Q2 # cs) (objs @ ps)"
          by (auto simp: consent_item_def caught_def Let_def)
        then show ?thesis by blast
      next
        case (Some e)
        with v objs colls r 1 2 3 have "?P 1 [LogException e i] (?Q1 # ?Q2 # cs) (objs @ ps)"
          by (auto simp: consent_item_def caught_def Let_def)
        then show ?thesis by blast
      qed
    qed
  qed
qed


lemma consent_item_summary:
  "num_processed (consent_item q ic z i s st) = num_processed st + 1 \<and>
   num_errors st + (if id_sample_lims s = None then 1 else 0)
     \<le> num_errors (consent_item q ic z i s st) \<and>
   num_errors (consent_item q ic z i s st) \<le> num_errors st + 1 \<and>
   set (logged st) \<subseteq> set (logged (consent_item q ic z i s st)) \<and>
   (id_sample_lims s = None \<longrightarrow>
      LogError ''Missing id_sample_lims'' i \<in> set (logged (consent_item q ic z i s st))) \<and>
   (\<forall>call \<in> set (calls (consent_item q ic z i s st)).
      call \<in> set (calls st) \<or> (call_item call = i \<and> id_sample_lims s \<noteq> None)) \<and>
   ((\<forall>j avus zone xs. q j avus True False zone = Inr xs \<longrightarrow> list_all is_data_object xs) \<longrightarrow>
      list_all is_data_object (printed st) \<longrightarrow>
      list_all is_data_object (printed (consent_item q ic z i s st)))"
proof (cases "id_sample_lims s")
  case None
  then show ?thesis by (auto simp: consent_item_missing)
next
  case (Some v)
  from consent_item_present [OF Some, where q = q and ic = ic and z = z and i = i and st = st] obtain k l cs ps where
    E: "consent_item q ic z i s st =
       st\<lparr>num_processed := num_processed st + 1,
          num_errors := num_errors st + k,
          logged := logged st @ LogInfo ''Finding data objects'' i # l,
          printed := printed st @ ps,
          calls := calls st @ cs\<rparr>"
    and k: "k = 0 \<or> k = 1"
    and cs: "list_all (\<lambda>call. call_item call = i) cs"
    and ps: "(\<forall>j avus zone xs. q j avus True False zone = Inr xs \<longrightarrow> list_all is_data_object xs)
        \<longrightarrow> list_all is_data_object ps"
    by blast
  from k cs ps Some show ?thesis
    by (auto simp: E list_all_iff)
qed

lemma consent_loop_processed:
  "num_processed (consent_loop q ic z i ss st) = num_processed st + int (length ss)"
  by (induction ss arbitrary: i st) (simp_all add: consent_item_summary)

lemma consent_loop_errors:
  "num_errors st + int (length (filter (\<lambda>s. id_sample_lims s = None) ss))
     \<le> num_errors (consent_loop q ic z i ss st) \<and>
   num_errors (consent_loop q ic z i ss st) \<le> num_errors st + int (length ss)"
proof (induction ss arbitrary: i st)
  case Nil
  show ?case by simp
next
  case (Cons s ss)
  from consent_item_summary [where q = q and ic = ic and z = z and i = i and s = s and st = st]
  have a: "num_errors st + (if id_sample_lims s = None then 1 else 0)
      \<le> num_errors (consent_item q ic z i s st)"
    and b: "num_errors (consent_item q ic z i s st) \<le> num_errors st + 1"
    by simp_all
  from Cons.IH [where i = "Suc i" and st = "consent_item q ic z i s st"] a b
  show ?case by (cases "id_sample_lims s") auto
qed

lemma consent_loop_logged_mono:
  "set (logged st) \<subseteq> set (logged (consent_loop q ic z i ss st))"
proof (induction ss arbitrary: i st)
  case Nil
  show ?case by simp
next
  case (Cons s ss)
  from Cons.IH [where i = "Suc i" and st = "consent_item q ic z i s st"]
    consent_item_summary [where q = q and ic = ic and z = z and i = i and s = s and st = st]
  show ?case by auto
qed

lemma consent_loop_logged:
  "k < length ss \<Longrightarrow> id_sample_lims (ss ! k) = None \<Longrightarrow>
   LogError ''Missing id_sample_lims'' (i + k) \<in> set (logged (consent_loop q ic z i ss st))"
proof (induction ss arbitrary: i k st)
  case Nil
  then show ?case by simp
next
  case (Cons s ss)
  show ?case
  proof (cases k)
    case 0
    with Cons.prems consent_item_summary [where q = q and ic = ic and z = z and i = i and s = s and st = st]
    have "LogError ''Missing id_sample_lims'' i \<in> set (logged (consent_item q ic z i s st))"
      by simp
    with consent_loop_logged_mono [where st = "consent_item q ic z i s st" and q = q and ic = ic and z = z and i = "Suc i" and ss = ss] 0
    show ?thesis by auto
  next
    case (Suc j)
    with Cons.prems have "j < length ss" and "id_sample_lims (ss ! j) = None" by simp_all
    from Cons.IH [OF this, where i = "Suc i" and st = "consent_item q ic z i s st"] Suc
    show ?thesis by simp
  qed
qed

lemma consent_loop_calls:
  "call \<in> set (calls (consent_loop q ic z i ss st)) \<Longrightarrow>
   call \<in> set (calls st) \<or>
   (i \<le> call_item call \<and> call_item call < i + length ss \<and>
    id_sample_lims (ss ! (call_item call - i)) \<noteq> None)"
proof (induction ss arbitrary: i st)
  case Nil
  then show ?case by simp
next
  case (Cons s ss)
  from Cons.prems have "call \<in> set (calls (consent_loop q ic z (Suc i) ss
      (consent_item q ic z i s st)))" by simp
  from Cons.IH [OF this] consider
    (old) "call \<in> set (calls (consent_item q ic z i s st))"
    | (new) "Suc i \<le> call_item call" "call_item call < Suc i + length ss"
        "id_sample_lims (ss ! (call_item call - Suc i)) \<noteq> None"
    by blast
  then show ?case
  proof cases
    case old
    with consent_item_summary [where q = q and ic = ic and z = z and i = i and s = s and st = st] show ?thesis by auto
  next
    case new
    then have "(s # ss) ! (call_item call - i) = ss ! (call_item call - Suc i)"
      by (simp add: nth_Cons')
    with new show ?thesis by simp
  qed
qed

lemma consent_loop_printed:
  assumes "\<forall>j avus zone xs. q j avus True False zone = Inr xs \<longrightarrow> list_all is_data_object xs"
  shows "list_all is_data_object (printed st) \<Longrightarrow>
         list_all is_data_object (printed (consent_loop q ic z i ss st))"
proof (induction ss arbitrary: i st)
  case Nil
  then show ?case by simp
next
  case (Cons s ss)
  from consent_item_summary [where q = q and ic = ic and z = z and i = i and s = s and st = st] assms Cons.prems
  have "list_all is_data_object (printed (consent_item q ic z i s st))" by blast
  from Cons.IH [OF this] show ?case by simp
qed

lemma consent_withdrawn_final:
  "fst (consent_withdrawn q ic z samples) =
     (consent_loop q ic z 0 samples run_init)
       \<lparr>logged := logged (consent_loop q ic z 0 samples run_init) @
          [LogSummary (num_processed (consent_loop q ic z 0 samples run_init))
             (num_errors (consent_loop q ic z 0 samples run_init))]\<rparr>"
  by (simp add: consent_withdrawn_def Let_def)


lemmas eval_consent =
  consent_withdrawn_def consent_item_def run_init_def Let_def caught_def store_sample_def
  contents_run_folder_def run_folder_def cram_def

text \<open>
  Claim C6. A record whose \<open>id_sample_lims\<close> is \<open>None\<close> adds one to \<open>num_errors\<close>, is logged
  as an error, and the item ends there: no store call is made and nothing is printed.
  Over a whole run every record is processed, every store call was made for a record
  that has an identifier, the errors are at least the records without one, and each of
  those is in the log under its own index.
\<close>

theorem missing_identifier_is_counted_and_not_queried:
  "(id_sample_lims s = None \<longrightarrow>
      num_errors (consent_item q ic z i s st) = num_errors st + 1 \<and>
      calls (consent_item q ic z i s st) = calls st \<and>
      printed (consent_item q ic z i s st) = printed st \<and>
      logged (consent_item q ic z i s st) =
        logged st @ [LogInfo ''Finding data objects'' i, LogError ''Missing id_sample_lims'' i]) \<and>
   num_processed (fst (consent_withdrawn q ic z samples)) = int (length samples) \<and>
   (\<forall>call \<in> set (calls (fst (consent_withdrawn q ic z samples))).
      call_item call < length samples \<and>
      id_sample_lims (samples ! call_item call) \<noteq> None) \<and>
   int (length (filter (\<lambda>s. id_sample_lims s = None) samples))
     \<le> num_errors (fst (consent_withdrawn q ic z samples)) \<and>
   (\<forall>k < length samples. id_sample_lims (samples ! k) = None \<longrightarrow>
      LogError ''Missing id_sample_lims'' k
        \<in> set (logged (fst (consent_withdrawn q ic z samples))))"
proof (intro conjI impI ballI allI)
  assume "id_sample_lims s = None"
  then have E: "consent_item q ic z i s st =
     st\<lparr>num_processed := num_processed st + 1,
        num_errors := num_errors st + 1,
        logged := logged st @
          [LogInfo ''Finding data objects'' i, LogError ''Missing id_sample_lims'' i]\<rparr>"
    by (rule consent_item_missing)
  show "num_errors (consent_item q ic z i s st) = num_errors st + 1" by (simp add: E)
  show "calls (consent_item q ic z i s st) = calls st" by (simp add: E)
  show "printed (consent_item q ic z i s st) = printed st" by (simp add: E)
  show "logged (consent_item q ic z i s st) =
        logged st @ [LogInfo ''Finding data objects'' i, LogError ''Missing id_sample_lims'' i]"
    by (simp add: E)
next
  show "num_processed (fst (consent_withdrawn q ic z samples)) = int (length samples)"
    by (simp add: consent_withdrawn_final consent_loop_processed run_init_def)
next
  fix call
  assume "call \<in> set (calls (fst (consent_withdrawn q ic z samples)))"
  then have "call \<in> set (calls (consent_loop q ic z 0 samples run_init))"
    by (simp add: consent_withdrawn_final)
  from consent_loop_calls [OF this]
  have "call_item call < length samples \<and> id_sample_lims (samples ! call_item call) \<noteq> None"
    by (simp add: run_init_def)
  then show "call_item call < length samples"
    and "id_sample_lims (samples ! call_item call) \<noteq> None"
    by simp_all
next
  from consent_loop_errors [where st = run_init and ss = samples and q = q and ic = ic
      and z = z and i = 0]
  show "int (length (filter (\<lambda>s. id_sample_lims s = None) samples))
     \<le> num_errors (fst (consent_withdrawn q ic z samples))"
    by (simp add: consent_withdrawn_final run_init_def)
next
  fix k
  assume "k < length samples" and "id_sample_lims (samples ! k) = None"
  from consent_loop_logged [OF this, where i = 0 and q = q and ic = ic and z = z
      and st = run_init]
  show "LogError ''Missing id_sample_lims'' k
        \<in> set (logged (fst (consent_withdrawn q ic z samples)))"
    by (simp add: consent_withdrawn_final)
qed

theorem missing_identifier_witness:
  "id_sample_lims \<lparr>id_sample_lims = None\<rparr> = None \<and>
   num_processed (fst (consent_withdrawn store_sample contents_run_folder None
     [\<lparr>id_sample_lims = None\<rparr>, \<lparr>id_sample_lims = Some ''S1''\<rparr>])) = 2 \<and>
   num_errors (fst (consent_withdrawn store_sample contents_run_folder None
     [\<lparr>id_sample_lims = None\<rparr>, \<lparr>id_sample_lims = Some ''S1''\<rparr>])) = 1 \<and>
   map call_item (calls (fst (consent_withdrawn store_sample contents_run_folder None
     [\<lparr>id_sample_lims = None\<rparr>, \<lparr>id_sample_lims = Some ''S1''\<rparr>]))) = [1, 1, 1] \<and>
   calls (consent_item store_sample contents_run_folder None 0 \<lparr>id_sample_lims = None\<rparr>
     run_init) = []"
proof -
  have 1: "num_errors (fst (consent_withdrawn store_sample contents_run_folder None
     [\<lparr>id_sample_lims = None\<rparr>, \<lparr>id_sample_lims = Some ''S1''\<rparr>])) = 1"
    and 2: "map call_item (calls (fst (consent_withdrawn store_sample contents_run_folder None
     [\<lparr>id_sample_lims = None\<rparr>, \<lparr>id_sample_lims = Some ''S1''\<rparr>]))) = [1, 1, 1]"
    by (simp_all add: eval_consent)
  from missing_identifier_is_counted_and_not_queried
    [where s = "\<lparr>id_sample_lims = None\<rparr>" and q = store_sample and ic = contents_run_folder
      and z = None and i = 0 and st = run_init
      and samples = "[\<lparr>id_sample_lims = None\<rparr>, \<lparr>id_sample_lims = Some ''S1''\<rparr>]"]
  have "num_processed (fst (consent_withdrawn store_sample contents_run_folder None
     [\<lparr>id_sample_lims = None\<rparr>, \<lparr>id_sample_lims = Some ''S1''\<rparr>])) = 2"
    and "calls (consent_item store_sample contents_run_folder None 0 \<lparr>id_sample_lims = None\<rparr>
     run_init) = []"
    by (simp_all add: run_init_def)
  with 1 2 show ?thesis by simp
qed

text \<open>
  Claim C9. Given that the store answers a query made with \<open>data_object=True\<close> and
  \<open>collection=False\<close> with data objects only (the contract of partisan, which is outside
  the program), everything \<open>consent_withdrawn\<close> prints is a data object, so no collection
  is ever printed. Whatever the store answers, walking the matched collections prints
  only data objects, and for a matched collection what is printed is exactly the data
  objects among the contents that were yielded, never the collection itself.
\<close>

theorem consent_withdrawn_prints_data_objects:
  "((\<forall>j avus zone xs. q j avus True False zone = Inr xs \<longrightarrow> list_all is_data_object xs) \<longrightarrow>
      list_all is_data_object (printed (fst (consent_withdrawn q ic z samples))) \<and>
      Collection p \<notin> set (printed (fst (consent_withdrawn q ic z samples)))) \<and>
   (list_all is_data_object (printed st) \<longrightarrow>
      list_all is_data_object (printed (fst (consent_colls ic i colls st)))) \<and>
   consent_colls ic i [Collection p] st =
     (st\<lparr>calls := calls st @ [IterContents i p],
         printed := printed st @ filter is_data_object (fst (ic i p))\<rparr>,
      snd (ic i p))"
proof (intro conjI impI)
  assume C: "\<forall>j avus zone xs. q j avus True False zone = Inr xs \<longrightarrow> list_all is_data_object xs"
  have "list_all is_data_object (printed run_init)" by (simp add: run_init_def)
  from consent_loop_printed
    [where q = q and st = run_init and ic = ic and z = z and i = 0 and ss = samples,
     OF C this]
  show A: "list_all is_data_object (printed (fst (consent_withdrawn q ic z samples)))"
    by (simp add: consent_withdrawn_final)
  show "Collection p \<notin> set (printed (fst (consent_withdrawn q ic z samples)))"
  proof
    assume "Collection p \<in> set (printed (fst (consent_withdrawn q ic z samples)))"
    with A have "is_data_object (Collection p)" by (auto simp: list_all_iff)
    then show False by simp
  qed
next
  assume P: "list_all is_data_object (printed st)"
  from consent_colls_shape [where ic = ic and i = i and colls = colls and st = st]
  obtain cs ps where "fst (consent_colls ic i colls st) =
       st\<lparr>printed := printed st @ ps, calls := calls st @ cs\<rparr>"
    and "list_all is_data_object ps" by blast
  with P show "list_all is_data_object (printed (fst (consent_colls ic i colls st)))"
    by simp
next
  show "consent_colls ic i [Collection p] st =
     (st\<lparr>calls := calls st @ [IterContents i p],
         printed := printed st @ filter is_data_object (fst (ic i p))\<rparr>,
      snd (ic i p))"
    by (cases "ic i p") (simp add: Let_def split: option.splits)
qed

theorem consent_withdrawn_prints_witness:
  "store_sample 0 [AVU TrackedSample_ID (StrValue ''S1'')] True False None = Inr [cram] \<and>
   is_data_object cram \<and>
   printed (fst (consent_withdrawn store_sample contents_run_folder None
     [\<lparr>id_sample_lims = Some ''S1''\<rparr>])) =
     [cram, DataObject ''/seq/ont/expt1/run1/report.md'',
      DataObject ''/seq/ont/expt1/run1/pass/reads.fastq''] \<and>
   run_folder \<notin> set (printed (fst (consent_withdrawn store_sample contents_run_folder None
     [\<lparr>id_sample_lims = Some ''S1''\<rparr>])))"
proof -
  have C: "\<forall>j avus zone xs. store_sample j avus True False zone = Inr xs \<longrightarrow>
      list_all is_data_object xs"
    by (auto simp: store_sample_def cram_def)
  have P: "printed (fst (consent_withdrawn store_sample contents_run_folder None
     [\<lparr>id_sample_lims = Some ''S1''\<rparr>])) =
     [cram, DataObject ''/seq/ont/expt1/run1/report.md'',
      DataObject ''/seq/ont/expt1/run1/pass/reads.fastq'']"
    by (simp add: eval_consent)
  from consent_withdrawn_prints_data_objects
    [where q = store_sample and ic = contents_run_folder and z = None
      and samples = "[\<lparr>id_sample_lims = Some ''S1''\<rparr>]"
      and p = "''/seq/ont/expt1/run1''"] C
  have "run_folder \<notin> set (printed (fst (consent_withdrawn store_sample contents_run_folder None
     [\<lparr>id_sample_lims = Some ''S1''\<rparr>])))"
    by (simp add: run_folder_def)
  with P show ?thesis by (simp add: store_sample_def cram_def)
qed

section \<open>Properties of ont-updates\<close>

lemma ont_colls_plain:
  "\<not> (report_tags \<and> tag_identifier c \<noteq> None) \<Longrightarrow>
   ont_colls bc report_tags i c colls st = (st\<lparr>printed := printed st @ colls\<rparr>, None)"
  by (induction colls arbitrary: st) auto

lemma ont_colls_frame:
  "num_processed (fst (ont_colls bc report_tags i c colls st)) = num_processed st \<and>
   num_errors (fst (ont_colls bc report_tags i c colls st)) = num_errors st \<and>
   logged (fst (ont_colls bc report_tags i c colls st)) = logged st"
  by (induction colls arbitrary: st) (auto simp: Let_def split: sum.splits)

lemma ont_colls_calls:
  "call \<in> set (calls (fst (ont_colls bc report_tags i c colls st))) \<Longrightarrow>
   call \<in> set (calls st) \<or>
   (call_item call = i \<and> report_tags \<and> tag_identifier c \<noteq> None)"
proof (induction colls arbitrary: st)
  case Nil
  then show ?case by simp
next
  case (Cons coll colls)
  show ?case
  proof (cases "report_tags \<and> tag_identifier c \<noteq> None")
    case False
    from ont_colls_plain [OF False, where bc = bc and i = i and colls = "coll # colls"
        and st = st]
    have "calls (fst (ont_colls bc report_tags i c (coll # colls) st)) = calls st"
      by (simp del: ont_colls.simps)
    with Cons.prems show ?thesis by (simp del: ont_colls.simps)
  next
    case True
    show ?thesis
    proof (cases "bc i coll (tag_identifier c)")
      case (Inl e)
      with True Cons.prems show ?thesis by (auto simp: Let_def)
    next
      case (Inr bcolls)
      let ?st = "st\<lparr>calls := calls st @ [BarcodeCollections i coll (tag_identifier c)],
          printed := printed st @ bcolls\<rparr>"
      from True Inr Cons.prems
      have "call \<in> set (calls (fst (ont_colls bc report_tags i c colls ?st)))"
        by (simp add: Let_def)
      from Cons.IH [OF this] True show ?thesis by auto
    qed
  qed
qed

lemma ont_item_summary:
  "num_processed (ont_item q bc z report_tags i c st) = num_processed st + 1 \<and>
   num_errors st \<le> num_errors (ont_item q bc z report_tags i c st) \<and>
   num_errors (ont_item q bc z report_tags i c st) \<le> num_errors st + 1 \<and>
   (\<forall>call \<in> set (calls (ont_item q bc z report_tags i c st)).
      call \<in> set (calls st) \<or>
      (call_item call = i \<and>
       (is_barcode_call call \<longrightarrow> report_tags \<and> tag_identifier c \<noteq> None)))"
proof (cases "q i (ont_avus c) False True z")
  case (Inl e)
  then show ?thesis by (auto simp: ont_item_def caught_def Let_def)
next
  case (Inr colls)
  let ?st1 = "st\<lparr>num_processed := num_processed st + 1,
       logged := logged st @ [LogInfo ''Finding collections'' i],
       calls := calls st @ [QueryMetadata i (ont_avus c) False True z]\<rparr>"
  obtain st2 err where r: "ont_colls bc report_tags i c colls ?st1 = (st2, err)"
    by (cases "ont_colls bc report_tags i c colls ?st1")
  from ont_colls_frame [where bc = bc and report_tags = report_tags and i = i and c = c
      and colls = colls and st = ?st1] r
  have f: "num_processed st2 = num_processed st + 1" "num_errors st2 = num_errors st"
    by simp_all
  have k: "\<forall>call \<in> set (calls st2). call \<in> set (calls st) \<or>
      (call_item call = i \<and>
       (is_barcode_call call \<longrightarrow> report_tags \<and> tag_identifier c \<noteq> None))"
  proof
    fix call
    assume "call \<in> set (calls st2)"
    with r have "call \<in> set (calls (fst (ont_colls bc report_tags i c colls ?st1)))" by simp
    from ont_colls_calls [OF this]
    show "call \<in> set (calls st) \<or>
      (call_item call = i \<and>
       (is_barcode_call call \<longrightarrow> report_tags \<and> tag_identifier c \<noteq> None))"
      by auto
  qed
  have E: "ont_item q bc z report_tags i c st =
      (case err of None \<Rightarrow> st2 | Some e \<Rightarrow> caught i e st2)"
    using Inr r by (simp add: ont_item_def Let_def)
  show ?thesis
  proof (cases err)
    case None
    with E f k show ?thesis by simp
  next
    case (Some e)
    with E f k show ?thesis by (simp add: caught_def)
  qed
qed

lemma ont_loop_processed:
  "num_processed (ont_loop q bc z report_tags i cs st) = num_processed st + int (length cs)"
  by (induction cs arbitrary: i st) (simp_all add: ont_item_summary)

lemma ont_loop_errors:
  "num_errors st \<le> num_errors (ont_loop q bc z report_tags i cs st) \<and>
   num_errors (ont_loop q bc z report_tags i cs st) \<le> num_errors st + int (length cs)"
proof (induction cs arbitrary: i st)
  case Nil
  show ?case by simp
next
  case (Cons c cs)
  from ont_item_summary [where q = q and bc = bc and z = z and report_tags = report_tags
      and i = i and c = c and st = st]
  have a: "num_errors st \<le> num_errors (ont_item q bc z report_tags i c st)"
    and b: "num_errors (ont_item q bc z report_tags i c st) \<le> num_errors st + 1"
    by simp_all
  from Cons.IH [where i = "Suc i" and st = "ont_item q bc z report_tags i c st"] a b
  show ?case by simp
qed

lemma ont_loop_calls:
  "call \<in> set (calls (ont_loop q bc z report_tags i cs st)) \<Longrightarrow>
   call \<in> set (calls st) \<or>
   (i \<le> call_item call \<and> call_item call < i + length cs \<and>
    (is_barcode_call call \<longrightarrow>
       report_tags \<and> tag_identifier (cs ! (call_item call - i)) \<noteq> None))"
proof (induction cs arbitrary: i st)
  case Nil
  then show ?case by simp
next
  case (Cons c cs)
  from Cons.prems have "call \<in> set (calls (ont_loop q bc z report_tags (Suc i) cs
      (ont_item q bc z report_tags i c st)))" by simp
  from Cons.IH [OF this] consider
    (old) "call \<in> set (calls (ont_item q bc z report_tags i c st))"
    | (new) "Suc i \<le> call_item call" "call_item call < Suc i + length cs"
        "is_barcode_call call \<longrightarrow>
           report_tags \<and> tag_identifier (cs ! (call_item call - Suc i)) \<noteq> None"
    by blast
  then show ?case
  proof cases
    case old
    with ont_item_summary [where q = q and bc = bc and z = z and report_tags = report_tags
      and i = i and c = c and st = st]
    show ?thesis by auto
  next
    case new
    then have "(c # cs) ! (call_item call - i) = cs ! (call_item call - Suc i)"
      by (simp add: nth_Cons')
    with new show ?thesis by simp
  qed
qed

lemma ont_item_plain:
  "\<not> (report_tags \<and> tag_identifier c \<noteq> None) \<Longrightarrow>
   printed (ont_item q bc z report_tags i c st) = printed st @ ont_matches q z i c \<and>
   filter is_barcode_call (calls (ont_item q bc z report_tags i c st)) =
     filter is_barcode_call (calls st)"
  by (cases "q i (ont_avus c) False True z")
     (simp_all add: ont_item_def ont_matches_def caught_def Let_def ont_colls_plain)

lemma ont_loop_plain:
  "\<forall>c \<in> set cs. \<not> (report_tags \<and> tag_identifier c \<noteq> None) \<Longrightarrow>
   printed (ont_loop q bc z report_tags i cs st) =
     printed st @ concat (map (\<lambda>(j, c). ont_matches q z j c) (enumerate i cs)) \<and>
   filter is_barcode_call (calls (ont_loop q bc z report_tags i cs st)) =
     filter is_barcode_call (calls st)"
proof (induction cs arbitrary: i st)
  case Nil
  show ?case by simp
next
  case (Cons c cs)
  then have c: "\<not> (report_tags \<and> tag_identifier c \<noteq> None)"
    and cs: "\<forall>c \<in> set cs. \<not> (report_tags \<and> tag_identifier c \<noteq> None)" by simp_all
  from Cons.IH [OF cs, where i = "Suc i" and st = "ont_item q bc z report_tags i c st"]
    ont_item_plain [OF c, where q = q and bc = bc and z = z and i = i and st = st]
  show ?case by simp
qed

lemma ont_updates_final:
  "fst (ont_updates q bc z report_tags comps) =
     (ont_loop q bc z report_tags 0 comps run_init)
       \<lparr>logged := logged (ont_loop q bc z report_tags 0 comps run_init) @
          [LogSummary (num_processed (ont_loop q bc z report_tags 0 comps run_init))
             (num_errors (ont_loop q bc z report_tags 0 comps run_init))]\<rparr>"
  by (simp add: ont_updates_def Let_def)


lemmas eval_ont =
  ont_updates_def ont_item_def ont_avus_def run_init_def Let_def caught_def store_sample_def
  barcodes_one_def run_folder_def

text \<open>
  Claim C8. Over a whole run \<open>barcode_collections\<close> is called only when \<open>report_tags\<close> is
  set and only for a component that carries a tag identifier. For a component without
  both, every matched collection is printed itself, with no further call. With both, and
  \<open>barcode_collections\<close> returning, what is printed for a matched collection is the
  sub-collections it returned, not the collection. So a run in which no component has
  both prints exactly the collections the store matched, in scan order.
\<close>

theorem barcode_expansion_only_when_requested:
  "(\<forall>call \<in> set (calls (fst (ont_updates q bc z report_tags comps))).
      is_barcode_call call \<longrightarrow>
        report_tags \<and> call_item call < length comps \<and>
        tag_identifier (comps ! call_item call) \<noteq> None) \<and>
   (\<not> (report_tags \<and> tag_identifier c \<noteq> None) \<longrightarrow>
      ont_colls bc report_tags i c colls st = (st\<lparr>printed := printed st @ colls\<rparr>, None)) \<and>
   (report_tags \<and> tag_identifier c \<noteq> None \<and> bc i coll (tag_identifier c) = Inr bcolls \<longrightarrow>
      ont_colls bc report_tags i c [coll] st =
        (st\<lparr>calls := calls st @ [BarcodeCollections i coll (tag_identifier c)],
            printed := printed st @ bcolls\<rparr>, None)) \<and>
   ((\<forall>c \<in> set comps. \<not> (report_tags \<and> tag_identifier c \<noteq> None)) \<longrightarrow>
      printed (fst (ont_updates q bc z report_tags comps)) =
        concat (map (\<lambda>(j, c). ont_matches q z j c) (enumerate 0 comps)) \<and>
      filter is_barcode_call (calls (fst (ont_updates q bc z report_tags comps))) = [])"
proof (intro conjI impI ballI)
  fix call
  assume "call \<in> set (calls (fst (ont_updates q bc z report_tags comps)))"
    and b: "is_barcode_call call"
  then have "call \<in> set (calls (ont_loop q bc z report_tags 0 comps run_init))"
    by (simp add: ont_updates_final)
  from ont_loop_calls [OF this] b
  have "report_tags \<and> call_item call < length comps \<and>
        tag_identifier (comps ! call_item call) \<noteq> None"
    by (simp add: run_init_def)
  then show "report_tags" and "call_item call < length comps"
    and "tag_identifier (comps ! call_item call) \<noteq> None"
    by simp_all
next
  assume "\<not> (report_tags \<and> tag_identifier c \<noteq> None)"
  then show "ont_colls bc report_tags i c colls st = (st\<lparr>printed := printed st @ colls\<rparr>, None)"
    by (rule ont_colls_plain)
next
  assume "report_tags \<and> tag_identifier c \<noteq> None \<and> bc i coll (tag_identifier c) = Inr bcolls"
  then show "ont_colls bc report_tags i c [coll] st =
        (st\<lparr>calls := calls st @ [BarcodeCollections i coll (tag_identifier c)],
            printed := printed st @ bcolls\<rparr>, None)"
    by (simp add: Let_def)
next
  assume P: "\<forall>c \<in> set comps. \<not> (report_tags \<and> tag_identifier c \<noteq> None)"
  from ont_loop_plain [OF P, where q = q and bc = bc and z = z and i = 0 and st = run_init]
  show "printed (fst (ont_updates q bc z report_tags comps)) =
        concat (map (\<lambda>(j, c). ont_matches q z j c) (enumerate 0 comps))"
    and "filter is_barcode_call (calls (fst (ont_updates q bc z report_tags comps))) = []"
    by (simp_all add: ont_updates_final run_init_def)
qed

theorem barcode_expansion_witness:
  "printed (fst (ont_updates store_sample barcodes_one None True
     [\<lparr>experiment_name = ''multiplexed_experiment_001'', instrument_slot = 1,
       tag_identifier = Some ''NB01''\<rparr>])) = [Collection ''/seq/ont/expt1/run1/NB01''] \<and>
   printed (fst (ont_updates store_sample barcodes_one None False
     [\<lparr>experiment_name = ''multiplexed_experiment_001'', instrument_slot = 1,
       tag_identifier = Some ''NB01''\<rparr>])) = [run_folder] \<and>
   printed (fst (ont_updates store_sample barcodes_one None True
     [\<lparr>experiment_name = ''simple_experiment_001'', instrument_slot = 1,
       tag_identifier = None\<rparr>])) = [run_folder] \<and>
   filter is_barcode_call (calls (fst (ont_updates store_sample barcodes_one None True
     [\<lparr>experiment_name = ''multiplexed_experiment_001'', instrument_slot = 1,
       tag_identifier = Some ''NB01''\<rparr>]))) =
     [BarcodeCollections 0 run_folder (Some ''NB01'')]"
proof -
  let ?m = "\<lparr>experiment_name = ''multiplexed_experiment_001'', instrument_slot = 1,
       tag_identifier = Some ''NB01''\<rparr>"
  let ?s = "\<lparr>experiment_name = ''simple_experiment_001'', instrument_slot = 1,
       tag_identifier = None\<rparr>"
  have 1: "printed (fst (ont_updates store_sample barcodes_one None True [?m])) =
      [Collection ''/seq/ont/expt1/run1/NB01'']"
    and 4: "filter is_barcode_call (calls (fst (ont_updates store_sample barcodes_one None True
      [?m]))) = [BarcodeCollections 0 run_folder (Some ''NB01'')]"
    by (simp_all add: eval_ont)
  from barcode_expansion_only_when_requested
    [where q = store_sample and bc = barcodes_one and z = None and report_tags = False
      and comps = "[?m]"]
  have 2: "printed (fst (ont_updates store_sample barcodes_one None False [?m])) = [run_folder]"
    by (simp add: ont_matches_def ont_avus_def store_sample_def)
  from barcode_expansion_only_when_requested
    [where q = store_sample and bc = barcodes_one and z = None and report_tags = True
      and comps = "[?s]"]
  have 3: "printed (fst (ont_updates store_sample barcodes_one None True [?s])) = [run_folder]"
    by (simp add: ont_matches_def ont_avus_def store_sample_def)
  from 1 2 3 4 show ?thesis by simp
qed

section \<open>Exit status\<close>

text \<open>
  Claim C7. Each of the three workflows of \<open>locate_data_objects.py\<close> that runs to its
  end exits with a non-zero status exactly when its final \<open>num_errors\<close> is above zero, and
  with status 0 when it is zero. The two update commands, once past \<open>--version\<close>, do the
  same with the \<open>num_errors\<close> their update function returns, given that this count is
  not negative.
\<close>

theorem exit_status_reflects_errors:
  "(snd (consent_withdrawn q ic z samples) \<noteq> 0 \<longleftrightarrow>
      0 < num_errors (fst (consent_withdrawn q ic z samples))) \<and>
   (snd (illumina_updates q z n comps) \<noteq> 0 \<longleftrightarrow>
      0 < num_errors (fst (illumina_updates q z n comps))) \<and>
   (snd (ont_updates q bc z report_tags ocomps) \<noteq> 0 \<longleftrightarrow>
      0 < num_errors (fst (ont_updates q bc z report_tags ocomps))) \<and>
   (\<not> version \<and> 0 \<le> n_errors \<longrightarrow>
      (update_secondary_metadata_main version (n_processed, n_updated, n_errors) \<noteq> 0 \<longleftrightarrow>
         0 < n_errors) \<and>
      (apply_ont_metadata_main version (n_processed, n_updated, n_errors) \<noteq> 0 \<longleftrightarrow>
         0 < n_errors)) \<and>
   (num_errors (fst (consent_withdrawn q ic z samples)) = 0 \<longrightarrow>
      snd (consent_withdrawn q ic z samples) = 0) \<and>
   (num_errors (fst (illumina_updates q z n comps)) = 0 \<longrightarrow>
      snd (illumina_updates q z n comps) = 0) \<and>
   (num_errors (fst (ont_updates q bc z report_tags ocomps)) = 0 \<longrightarrow>
      snd (ont_updates q bc z report_tags ocomps) = 0)"
proof -
  from consent_loop_errors [where st = run_init and ss = samples and q = q and ic = ic
      and z = z and i = 0]
  have c: "0 \<le> num_errors (consent_loop q ic z 0 samples run_init)"
    by (simp add: run_init_def)
  from illumina_loop_errors [where s = illumina_init and q = q and z = z and n = n and i = 0
      and cs = comps]
  have i: "0 \<le> num_errors (illumina_loop q z n 0 comps illumina_init)"
    by (simp add: illumina_init_def)
  from ont_loop_errors [where st = run_init and q = q and bc = bc and z = z
      and report_tags = report_tags and i = 0 and cs = ocomps]
  have o: "0 \<le> num_errors (ont_loop q bc z report_tags 0 ocomps run_init)"
    by (simp add: run_init_def)
  have 1: "snd (consent_withdrawn q ic z samples) \<noteq> 0 \<longleftrightarrow>
      0 < num_errors (fst (consent_withdrawn q ic z samples))"
    using c by (simp add: consent_withdrawn_def Let_def exit_status_def)
  have 2: "snd (illumina_updates q z n comps) \<noteq> 0 \<longleftrightarrow>
      0 < num_errors (fst (illumina_updates q z n comps))"
    using i by (simp add: illumina_updates_def Let_def exit_status_def)
  have 3: "snd (ont_updates q bc z report_tags ocomps) \<noteq> 0 \<longleftrightarrow>
      0 < num_errors (fst (ont_updates q bc z report_tags ocomps))"
    using o by (simp add: ont_updates_def Let_def exit_status_def)
  have 4: "\<not> version \<and> 0 \<le> n_errors \<longrightarrow>
      (update_secondary_metadata_main version (n_processed, n_updated, n_errors) \<noteq> 0 \<longleftrightarrow>
         0 < n_errors) \<and>
      (apply_ont_metadata_main version (n_processed, n_updated, n_errors) \<noteq> 0 \<longleftrightarrow>
         0 < n_errors)"
    by (simp add: update_secondary_metadata_main_def apply_ont_metadata_main_def)
  have 5: "num_errors (fst (consent_withdrawn q ic z samples)) = 0 \<longrightarrow>
      snd (consent_withdrawn q ic z samples) = 0"
    by (simp add: consent_withdrawn_def Let_def exit_status_def)
  have 6: "num_errors (fst (illumina_updates q z n comps)) = 0 \<longrightarrow>
      snd (illumina_updates q z n comps) = 0"
    by (simp add: illumina_updates_def Let_def exit_status_def)
  have 7: "num_errors (fst (ont_updates q bc z report_tags ocomps)) = 0 \<longrightarrow>
      snd (ont_updates q bc z report_tags ocomps) = 0"
    by (simp add: ont_updates_def Let_def exit_status_def)
  from 1 2 3 4 5 6 7 show ?thesis by blast
qed

theorem exit_status_witness:
  "snd (illumina_updates store_down_first None (Some 10) [plex 7 1 1, plex 7 1 2]) = 1 \<and>
   num_errors (fst (illumina_updates store_down_first None (Some 10) [plex 7 1 1, plex 7 1 2])) = 1 \<and>
   snd (illumina_updates store_empty None (Some 10) [plex 7 1 1, plex 7 1 2]) = 0 \<and>
   snd (consent_withdrawn store_sample contents_run_folder None
     [\<lparr>id_sample_lims = None\<rparr>]) = 1 \<and>
   snd (ont_updates store_sample barcodes_one None False []) = 0 \<and>
   update_secondary_metadata_main False (4, 2, 1) = 1 \<and>
   update_secondary_metadata_main False (4, 2, 0) = 0 \<and>
   apply_ont_metadata_main False (4, 0, 3) = 1 \<and>
   apply_ont_metadata_main False (4, 0, 0) = 0"
proof -
  have e1: "num_errors (fst (illumina_updates store_down_first None (Some 10)
      [plex 7 1 1, plex 7 1 2])) = 1"
    and e2: "num_errors (fst (illumina_updates store_empty None (Some 10)
      [plex 7 1 1, plex 7 1 2])) = 0"
    by (simp_all add: illumina_updates_def eval_illumina store_down_first_def store_empty_def)
  have s1: "snd (illumina_updates store_down_first None (Some 10) [plex 7 1 1, plex 7 1 2]) = 1"
    by (simp add: illumina_updates_def eval_illumina store_down_first_def exit_status_def)
  from exit_status_reflects_errors
    [where q = store_empty and z = None and n = "Some 10" and comps = "[plex 7 1 1, plex 7 1 2]"] e2
  have s2: "snd (illumina_updates store_empty None (Some 10) [plex 7 1 1, plex 7 1 2]) = 0"
    by simp
  have rest: "snd (consent_withdrawn store_sample contents_run_folder None
     [\<lparr>id_sample_lims = None\<rparr>]) = 1 \<and>
   snd (ont_updates store_sample barcodes_one None False []) = 0 \<and>
   update_secondary_metadata_main False (4, 2, 1) = 1 \<and>
   update_secondary_metadata_main False (4, 2, 0) = 0 \<and>
   apply_ont_metadata_main False (4, 0, 3) = 1 \<and>
   apply_ont_metadata_main False (4, 0, 0) = 0"
    by (simp add: eval_consent eval_ont exit_status_def update_secondary_metadata_main_def
        apply_ont_metadata_main_def)
  from e1 s1 s2 rest show ?thesis by simp
qed

section \<open>Finding recent ONT experiments in the synthetic warehouse\<close>

text \<open>
  The rows of one experiment all carry its name, so what the query keeps of them yields
  the name once, or not at all.
\<close>

lemma removeAll_replicate:
  "removeAll n (replicate k m) = (if m = n then [] else replicate k m)"
  by (induction k) (auto split: if_splits)

lemma distinct_first_replicate:
  "distinct_first (replicate k n @ rest) =
     (if k = 0 then distinct_first rest else n # distinct_first (removeAll n rest))"
  by (cases k) (simp_all add: removeAll_replicate)

lemma same_name_replicate:
  "\<forall>row \<in> set block. fc_experiment_name row = n \<Longrightarrow>
   map fc_experiment_name (filter P block) = replicate (length (filter P block)) n"
  by (induction block) simp_all

lemma block_first:
  assumes "\<forall>row \<in> set block. fc_experiment_name row = n"
  shows "distinct_first (map fc_experiment_name (filter P block) @ rest) =
     (if \<exists>row \<in> set block. P row then n # distinct_first (removeAll n rest)
      else distinct_first rest)"
proof -
  have "(length (filter P block) = 0) = (\<not> (\<exists>row \<in> set block. P row))"
    by (simp add: filter_empty_conv)
  then show ?thesis
    by (simp only: same_name_replicate [OF assms] distinct_first_replicate) simp
qed

lemma block_removeAll:
  assumes "\<forall>row \<in> set block. fc_experiment_name row = m" and "m \<noteq> n"
  shows "removeAll n (map fc_experiment_name (filter P block) @ rest) =
     map fc_experiment_name (filter P block) @ removeAll n rest"
  using assms by (simp add: same_name_replicate [OF assms(1)] removeAll_replicate)

lemma simple_rows_name:
  "\<forall>row \<in> set (simple_rows E L T e). fc_experiment_name row = simple_name e"
  by (simp add: simple_rows_def)

lemma multiplexed_rows_name:
  "\<forall>row \<in> set (multiplexed_rows E L T e). fc_experiment_name row = multiplexed_name e"
  by (simp add: multiplexed_rows_def)

lemma simple_rows_recent:
  "(\<exists>row \<in> set (simple_rows E L T e). since \<le> last_updated row) =
     (if even e then since \<le> E else since \<le> L)"
  by (auto simp: simple_rows_def simple_when_done_def)

lemma multiplexed_rows_recent:
  "(\<exists>row \<in> set (multiplexed_rows E L T e). since \<le> last_updated row) =
     (if even e then since \<le> E else since \<le> L \<or> since \<le> T)"
  by (auto simp: multiplexed_rows_def when_done_def)


lemma simple_names:
  "simple_name 1 = ''simple_experiment_001''"
  "simple_name (Suc 0) = ''simple_experiment_001''"
  "simple_name 2 = ''simple_experiment_002''"
  "simple_name 3 = ''simple_experiment_003''"
  "simple_name 4 = ''simple_experiment_004''"
  "simple_name 5 = ''simple_experiment_005''"
  by (simp_all add: simple_name_def digit_def)

lemma multiplexed_names:
  "multiplexed_name 1 = ''multiplexed_experiment_001''"
  "multiplexed_name (Suc 0) = ''multiplexed_experiment_001''"
  "multiplexed_name 2 = ''multiplexed_experiment_002''"
  "multiplexed_name 3 = ''multiplexed_experiment_003''"
  by (simp_all add: multiplexed_name_def digit_def)

text \<open>The names the query yields, block by block.\<close>

lemma simple_first:
  "distinct_first (map fc_experiment_name
       (filter (\<lambda>row. since \<le> last_updated row) (simple_rows E L T e)) @ rest) =
     (if (if even e then since \<le> E else since \<le> L)
      then simple_name e # distinct_first (removeAll (simple_name e) rest)
      else distinct_first rest)"
  by (simp only: block_first [OF simple_rows_name] simple_rows_recent)

lemma multiplexed_first:
  "distinct_first (map fc_experiment_name
       (filter (\<lambda>row. since \<le> last_updated row) (multiplexed_rows E L T e)) @ rest) =
     (if (if even e then since \<le> E else since \<le> L \<or> since \<le> T)
      then multiplexed_name e # distinct_first (removeAll (multiplexed_name e) rest)
      else distinct_first rest)"
  by (simp only: block_first [OF multiplexed_rows_name] multiplexed_rows_recent)

lemma simple_last:
  "distinct_first (map fc_experiment_name
       (filter (\<lambda>row. since \<le> last_updated row) (simple_rows E L T e))) =
     (if (if even e then since \<le> E else since \<le> L)
      then [simple_name e] else [])"
  using simple_first [where rest = "[]"] by simp

lemma multiplexed_last:
  "distinct_first (map fc_experiment_name
       (filter (\<lambda>row. since \<le> last_updated row) (multiplexed_rows E L T e))) =
     (if (if even e then since \<le> E else since \<le> L \<or> since \<le> T)
      then [multiplexed_name e] else [])"
  using multiplexed_first [where rest = "[]"] by simp

lemma simple_removeAll:
  "simple_name e \<noteq> n \<Longrightarrow>
   removeAll n (map fc_experiment_name
       (filter (\<lambda>row. since \<le> last_updated row) (simple_rows E L T e))) =
     map fc_experiment_name
       (filter (\<lambda>row. since \<le> last_updated row) (simple_rows E L T e))"
  using block_removeAll [OF simple_rows_name, where rest = "[]"] by simp

lemma multiplexed_removeAll:
  "multiplexed_name e \<noteq> n \<Longrightarrow>
   removeAll n (map fc_experiment_name
       (filter (\<lambda>row. since \<le> last_updated row) (multiplexed_rows E L T e))) =
     map fc_experiment_name
       (filter (\<lambda>row. since \<le> last_updated row) (multiplexed_rows E L T e))"
  using block_removeAll [OF multiplexed_rows_name, where rest = "[]"] by simp

lemma recent_blocks:
  "find_recent_expt (ont_synthetic_mlwh E L T) since =
     distinct_first
       (map fc_experiment_name (filter (\<lambda>row. since \<le> last_updated row) (simple_rows E L T 1)) @
        map fc_experiment_name (filter (\<lambda>row. since \<le> last_updated row) (simple_rows E L T 2)) @
        map fc_experiment_name (filter (\<lambda>row. since \<le> last_updated row) (simple_rows E L T 3)) @
        map fc_experiment_name (filter (\<lambda>row. since \<le> last_updated row) (simple_rows E L T 4)) @
        map fc_experiment_name (filter (\<lambda>row. since \<le> last_updated row) (simple_rows E L T 5)) @
        map fc_experiment_name
          (filter (\<lambda>row. since \<le> last_updated row) (multiplexed_rows E L T 1)) @
        map fc_experiment_name
          (filter (\<lambda>row. since \<le> last_updated row) (multiplexed_rows E L T 2)) @
        map fc_experiment_name
          (filter (\<lambda>row. since \<le> last_updated row) (multiplexed_rows E L T 3)) @ [])"
  by (simp add: find_recent_expt_def ont_synthetic_mlwh_def)

lemma find_recent_expt_cases:
  "find_recent_expt (ont_synthetic_mlwh E L T) since =
     (if since \<le> L then [''simple_experiment_001''] else []) @
     (if since \<le> E then [''simple_experiment_002''] else []) @
     (if since \<le> L then [''simple_experiment_003''] else []) @
     (if since \<le> E then [''simple_experiment_004''] else []) @
     (if since \<le> L then [''simple_experiment_005''] else []) @
     (if since \<le> L \<or> since \<le> T then [''multiplexed_experiment_001''] else []) @
     (if since \<le> E then [''multiplexed_experiment_002''] else []) @
     (if since \<le> L \<or> since \<le> T then [''multiplexed_experiment_003''] else [])"
  by (simp add: recent_blocks simple_first multiplexed_first simple_last multiplexed_last
      simple_removeAll multiplexed_removeAll simple_names multiplexed_names)


text \<open>
  Claim C3. Over the synthetic warehouse, with \<open>EARLY\<close> more than a day before \<open>LATE\<close> and
  \<open>LATE\<close> before \<open>LATEST\<close>: \<open>find_recent_expt\<close> since \<open>EARLY\<close> yields all eight experiment
  names, since a day before \<open>LATE\<close> the five odd-numbered ones, and since a day after
  \<open>LATEST\<close> none. The lists are those of \<open>test_find_recent_expt\<close>, in its order.
\<close>

theorem find_recent_expt_scenario:
  assumes "EARLY < LATE - one_day" and "LATE < LATEST"
  shows "find_recent_expt (ont_synthetic_mlwh EARLY LATE LATEST) EARLY =
           [''simple_experiment_001'', ''simple_experiment_002'', ''simple_experiment_003'',
            ''simple_experiment_004'', ''simple_experiment_005'',
            ''multiplexed_experiment_001'', ''multiplexed_experiment_002'',
            ''multiplexed_experiment_003''] \<and>
         find_recent_expt (ont_synthetic_mlwh EARLY LATE LATEST) (LATE - one_day) =
           [''simple_experiment_001'', ''simple_experiment_003'', ''simple_experiment_005'',
            ''multiplexed_experiment_001'', ''multiplexed_experiment_003''] \<and>
         find_recent_expt (ont_synthetic_mlwh EARLY LATE LATEST) (LATEST + one_day) = []"
proof -
  from assms have o: "EARLY < LATE - 86400" "LATE < LATEST" by (simp_all add: one_day_def)
  have 1: "find_recent_expt (ont_synthetic_mlwh EARLY LATE LATEST) EARLY =
           [''simple_experiment_001'', ''simple_experiment_002'', ''simple_experiment_003'',
            ''simple_experiment_004'', ''simple_experiment_005'',
            ''multiplexed_experiment_001'', ''multiplexed_experiment_002'',
            ''multiplexed_experiment_003'']"
    using o by (simp add: find_recent_expt_cases)
  have 2: "find_recent_expt (ont_synthetic_mlwh EARLY LATE LATEST) (LATE - one_day) =
           [''simple_experiment_001'', ''simple_experiment_003'', ''simple_experiment_005'',
            ''multiplexed_experiment_001'', ''multiplexed_experiment_003'']"
    using o by (simp add: find_recent_expt_cases one_day_def)
  have 3: "find_recent_expt (ont_synthetic_mlwh EARLY LATE LATEST) (LATEST + one_day) = []"
    using o by (simp add: find_recent_expt_cases one_day_def)
  from 1 2 3 show ?thesis by simp
qed

theorem find_recent_expt_scenario_witness:
  "(0::int) < 1123200 - one_day \<and> (1123200::int) < 2505600 \<and>
   find_recent_expt (ont_synthetic_mlwh 0 1123200 2505600) 0 =
     [''simple_experiment_001'', ''simple_experiment_002'', ''simple_experiment_003'',
      ''simple_experiment_004'', ''simple_experiment_005'',
      ''multiplexed_experiment_001'', ''multiplexed_experiment_002'',
      ''multiplexed_experiment_003''] \<and>
   find_recent_expt (ont_synthetic_mlwh 0 1123200 2505600) (1123200 - one_day) =
     [''simple_experiment_001'', ''simple_experiment_003'', ''simple_experiment_005'',
      ''multiplexed_experiment_001'', ''multiplexed_experiment_003''] \<and>
   find_recent_expt (ont_synthetic_mlwh 0 1123200 2505600) (2505600 + one_day) = []"
proof -
  have a: "(0::int) < 1123200 - one_day" and b: "(1123200::int) < 2505600"
    by (simp_all add: one_day_def)
  from find_recent_expt_scenario [OF a b] a b show ?thesis by simp
qed

end
